theory Spec2Isabelle
  imports Main "HOL-Library.Sublist"
begin

section \<open>Strings and numbers as the script uses them\<close>

text \<open>
  A JavaScript string is modelled as a \<^typ>\<open>string\<close>; a character stands for a code unit
  below 256. Numbers that are counters, sizes or status codes are natural numbers, a
  time stamp is an integer. \<open>string_of_nat\<close> is the decimal rendering a template literal
  gives an integer.
\<close>

definition digit_char :: "nat \<Rightarrow> char" where
  "digit_char d = char_of (48 + d)"

fun string_of_nat :: "nat \<Rightarrow> string" where
  "string_of_nat n =
     (if n < 10 then [digit_char n]
      else string_of_nat (n div 10) @ [digit_char (n mod 10)])"

declare string_of_nat.simps [simp del]

definition string_of_int :: "int \<Rightarrow> string" where
  "string_of_int k = (if k < 0 then ''-'' @ string_of_nat (nat (- k)) else string_of_nat (nat k))"

text \<open>The white space of \<open>\s\<close> and of \<open>trim()\<close>: TAB, LF, VT, FF, CR, SP and NBSP.\<close>

definition is_space :: "char \<Rightarrow> bool" where
  "is_space c = (of_char c \<in> {9, 10, 11, 12, 13, 32, 160::nat})"

definition trimStart :: "string \<Rightarrow> string" where
  "trimStart s = dropWhile is_space s"

definition trimEnd :: "string \<Rightarrow> string" where
  "trimEnd s = rev (dropWhile is_space (rev s))"

definition trim :: "string \<Rightarrow> string" where
  "trim s = trimEnd (trimStart s)"

text \<open>\<open>s.split(sep)[0]\<close> for a one-character separator, and for the class \<open>[?#]\<close>.\<close>

definition split_first :: "char \<Rightarrow> string \<Rightarrow> string" where
  "split_first sep s = takeWhile (\<lambda>c. c \<noteq> sep) s"

definition split_first_query_or_hash :: "string \<Rightarrow> string" where
  "split_first_query_or_hash s = takeWhile (\<lambda>c. c \<noteq> CHR ''?'' \<and> c \<noteq> CHR ''#'') s"

text \<open>\<open>s.split('/').pop()\<close>: what follows the last slash, the whole string without one.\<close>

definition split_pop_slash :: "string \<Rightarrow> string" where
  "split_pop_slash s = rev (takeWhile (\<lambda>c. c \<noteq> CHR ''/'') (rev s))"

section \<open>Regular expressions\<close>

text \<open>
  The patterns of the script are values of \<open>re\<close>. A quantifier \<open>*\<close>, \<open>+\<close> or \<open>+?\<close> stands
  on a character class, \<open>?\<close> on any pattern: the script uses no other. Matching is the
  backtracking search of the language: \<open>rmatch\<close> lists the ways a pattern matches at a
  state in the order the search tries them, so the match of the script is the head.
\<close>

datatype cset =
    Ws
  | Chars string
  | Range char char
  | Union cset cset
  | Neg cset

datatype re =
    Eps
  | Lit string
  | Set cset
  | Bol
  | Eol
  | Seq re re
  | Alt re re
  | Opt re
  | Star cset
  | Plus cset
  | LazyPlus cset
  | Group nat re

definition ascii_upper :: "char \<Rightarrow> char" where
  "ascii_upper c =
     (if 97 \<le> (of_char c :: nat) \<and> (of_char c :: nat) \<le> 122
      then char_of ((of_char c :: nat) - 32) else c)"

definition ascii_lower :: "char \<Rightarrow> char" where
  "ascii_lower c =
     (if 65 \<le> (of_char c :: nat) \<and> (of_char c :: nat) \<le> 90
      then char_of ((of_char c :: nat) + 32) else c)"

text \<open>
  Under the flag \<open>i\<close> two characters match when their canonical forms agree. The
  patterns of the script hold ASCII letters only, for which the canonical form is the
  upper-case letter, and a character from 128 on is its own canonical form against them.
\<close>

definition canon :: "bool \<Rightarrow> char \<Rightarrow> char" where
  "canon ic c = (if ic then ascii_upper c else c)"

definition in_range :: "char \<Rightarrow> char \<Rightarrow> char \<Rightarrow> bool" where
  "in_range a b c = ((of_char a :: nat) \<le> of_char c \<and> (of_char c :: nat) \<le> of_char b)"

fun cset_has :: "bool \<Rightarrow> cset \<Rightarrow> char \<Rightarrow> bool" where
  "cset_has ic Ws c = is_space c"
| "cset_has ic (Chars s) c = (canon ic c \<in> set (map (canon ic) s))"
| "cset_has ic (Range a b) c =
     (in_range a b c \<or> (ic \<and> (in_range a b (ascii_upper c) \<or> in_range a b (ascii_lower c))))"
| "cset_has ic (Union x y) c = (cset_has ic x c \<or> cset_has ic y c)"
| "cset_has ic (Neg x) c = (\<not> cset_has ic x c)"

fun lit_prefix :: "bool \<Rightarrow> string \<Rightarrow> string \<Rightarrow> string option" where
  "lit_prefix ic [] s = Some s"
| "lit_prefix ic (p # ps) [] = None"
| "lit_prefix ic (p # ps) (c # cs) =
     (if canon ic p = canon ic c then lit_prefix ic ps cs else None)"

type_synonym caps = "nat \<Rightarrow> string option"

text \<open>A state: the index reached, the input from there on, the captures so far.\<close>

type_synonym mstate = "nat \<times> string \<times> caps"

definition run :: "bool \<Rightarrow> cset \<Rightarrow> string \<Rightarrow> nat" where
  "run ic cs s = length (takeWhile (cset_has ic cs) s)"

definition advance :: "mstate \<Rightarrow> nat \<Rightarrow> mstate" where
  "advance st k = (case st of (i, s, c) \<Rightarrow> (i + k, drop k s, c))"

fun rmatch :: "bool \<Rightarrow> re \<Rightarrow> mstate \<Rightarrow> mstate list" where
  "rmatch ic Eps st = [st]"
| "rmatch ic (Lit p) (i, s, c) =
     (case lit_prefix ic p s of None \<Rightarrow> [] | Some s' \<Rightarrow> [(i + length p, s', c)])"
| "rmatch ic (Set cs) (i, s, c) =
     (case s of [] \<Rightarrow> [] | x # s' \<Rightarrow> if cset_has ic cs x then [(Suc i, s', c)] else [])"
| "rmatch ic Bol (i, s, c) = (if i = 0 then [(i, s, c)] else [])"
| "rmatch ic Eol (i, s, c) = (if s = [] then [(i, s, c)] else [])"
| "rmatch ic (Seq a b) st = concat (map (rmatch ic b) (rmatch ic a st))"
| "rmatch ic (Alt a b) st = rmatch ic a st @ rmatch ic b st"
| "rmatch ic (Opt a) st = filter (\<lambda>st'. fst st' \<noteq> fst st) (rmatch ic a st) @ [st]"
| "rmatch ic (Star cs) st = map (advance st) (rev [0 ..< Suc (run ic cs (fst (snd st)))])"
| "rmatch ic (Plus cs) st = map (advance st) (rev [1 ..< Suc (run ic cs (fst (snd st)))])"
| "rmatch ic (LazyPlus cs) st = map (advance st) [1 ..< Suc (run ic cs (fst (snd st)))]"
| "rmatch ic (Group n a) (i, s, c) =
     map (\<lambda>st'. case st' of (j, s', c') \<Rightarrow> (j, s', c'(n \<mapsto> take (j - i) s)))
         (rmatch ic a (i, s, c))"

text \<open>
  The search of \<open>exec\<close> and \<open>test\<close>: the first index from \<open>i\<close> on where the pattern
  matches, with the state the match ends in.
\<close>

fun re_search :: "bool \<Rightarrow> re \<Rightarrow> nat \<Rightarrow> string \<Rightarrow> (nat \<times> mstate) option" where
  "re_search ic r i [] =
     (case rmatch ic r (i, [], Map.empty) of [] \<Rightarrow> None | st # _ \<Rightarrow> Some (i, st))"
| "re_search ic r i (x # s) =
     (case rmatch ic r (i, x # s, Map.empty) of
        [] \<Rightarrow> re_search ic r (Suc i) s
      | st # _ \<Rightarrow> Some (i, st))"

definition re_test :: "bool \<Rightarrow> re \<Rightarrow> string \<Rightarrow> bool" where
  "re_test ic r s = (re_search ic r 0 s \<noteq> None)"


section \<open>Termination of the global search\<close>

lemma lit_prefix_Some:
  "lit_prefix ic p s = Some s' \<Longrightarrow> \<exists>u. s = u @ s' \<and> length u = length p"
proof (induction ic p s rule: lit_prefix.induct)
  case (3 ic p ps c cs)
  then obtain u where "cs = u @ s'" "length u = length ps"
    by (auto split: if_splits)
  then have "c # cs = (c # u) @ s' \<and> length (c # u) = length (p # ps)"
    by simp
  then show ?case by blast
qed auto

lemma run_le: "run ic cs s \<le> length s"
  by (simp add: run_def length_takeWhile_le)

lemma advance_suffix:
  assumes "(j, s', c') \<in> advance (i, s, c) ` K" and "\<forall>k\<in>K. k \<le> run ic cs s"
  shows "\<exists>u. s = u @ s' \<and> j = i + length u"
proof -
  from assms(1) obtain k where k: "k \<in> K" and e: "(j, s', c') = advance (i, s, c) k"
    by (rule imageE)
  from k assms(2) run_le[of ic cs s] have "k \<le> length s"
    using le_trans by blast
  with e have "s = take k s @ s' \<and> j = i + length (take k s)"
    by (simp add: advance_def)
  then show ?thesis by blast
qed

lemma rmatch_suffix:
  "(j, s', c') \<in> set (rmatch ic r (i, s, c)) \<Longrightarrow> \<exists>u. s = u @ s' \<and> j = i + length u"
proof (induction r arbitrary: i s c j s' c')
  case (Lit p)
  then have "lit_prefix ic p s = Some s'" "j = i + length p"
    by (auto split: option.splits)
  with lit_prefix_Some[of ic p s s'] show ?case by auto
next
  case (Set cs)
  then show ?case
    by (cases s) (auto split: if_splits)
next
  case (Seq a b)
  from Seq.prems obtain m sm cm where
    m: "(m, sm, cm) \<in> set (rmatch ic a (i, s, c))"
    and e: "(j, s', c') \<in> set (rmatch ic b (m, sm, cm))"
    by auto
  from Seq.IH(1)[OF m] obtain u where u: "s = u @ sm" "m = i + length u" by blast
  from Seq.IH(2)[OF e] obtain v where v: "sm = v @ s'" "j = m + length v" by blast
  from u v have "s = (u @ v) @ s' \<and> j = i + length (u @ v)" by simp
  then show ?case by blast
next
  case (Alt a b)
  then show ?case by auto
next
  case (Opt a)
  then show ?case by auto
next
  case (Star cs)
  then have "(j, s', c') \<in> advance (i, s, c) ` set (rev [0 ..< Suc (run ic cs s)])"
    by (simp only: rmatch.simps set_map fst_conv snd_conv)
  then show ?case by (rule advance_suffix) auto
next
  case (Plus cs)
  then have "(j, s', c') \<in> advance (i, s, c) ` set (rev [1 ..< Suc (run ic cs s)])"
    by (simp only: rmatch.simps set_map fst_conv snd_conv)
  then show ?case by (rule advance_suffix) auto
next
  case (LazyPlus cs)
  then have "(j, s', c') \<in> advance (i, s, c) ` set [1 ..< Suc (run ic cs s)]"
    by (simp only: rmatch.simps set_map fst_conv snd_conv)
  then show ?case by (rule advance_suffix) auto
next
  case (Group n a)
  then show ?case by auto
qed (auto split: if_splits)

lemma re_search_suffix:
  "re_search ic r i s = Some (k, j, s', c') \<Longrightarrow>
     \<exists>u v. s = u @ v @ s' \<and> k = i + length u \<and> j = k + length v"
proof (induction ic r i s rule: re_search.induct)
  case (1 ic r i)
  then have "(j, s', c') \<in> set (rmatch ic r (i, [], Map.empty))" "k = i"
    by (auto split: list.splits)
  from rmatch_suffix[OF this(1)] \<open>k = i\<close> show ?case by auto
next
  case (2 ic r i x s)
  show ?case
  proof (cases "rmatch ic r (i, x # s, Map.empty)")
    case Nil
    with 2 obtain u v where "s = u @ v @ s'" "k = Suc i + length u" "j = k + length v"
      by auto
    then have "x # s = (x # u) @ v @ s' \<and> k = i + length (x # u) \<and> j = k + length v"
      by simp
    then show ?thesis by blast
  next
    case (Cons st sts)
    with 2 have "(j, s', c') \<in> set (rmatch ic r (i, x # s, Map.empty))" "k = i"
      by auto
    from rmatch_suffix[OF this(1)] \<open>k = i\<close> show ?thesis by auto
  qed
qed

text \<open>
  \<open>matchAll\<close> with the flag \<open>g\<close>: the matches from left to right, each search starting
  where the match before ended, one index further after an empty match. A match is its
  captures, the whole match at index 0.
\<close>

function matchAll :: "bool \<Rightarrow> re \<Rightarrow> nat \<Rightarrow> string \<Rightarrow> caps list" where
  "matchAll ic r i s =
     (case re_search ic r i s of
        None \<Rightarrow> []
      | Some (k, j, s', c) \<Rightarrow>
          c(0 \<mapsto> take (j - k) (drop (k - i) s)) #
          (if j = k then (case s' of [] \<Rightarrow> [] | x # s'' \<Rightarrow> matchAll ic r (Suc j) s'')
           else matchAll ic r j s'))"
  by pat_completeness auto
termination
proof (relation "measure (\<lambda>(ic, r, i, s). length s)")
  fix ic r i s x2 k y j ya s' c x21 x22
  assume "re_search ic r i s = Some x2" "(k, y) = x2" "(j, ya) = y" "(s', c) = ya"
    "j = k" "s' = x21 # x22"
  then have "re_search ic r i s = Some (k, j, x21 # x22, c)" by simp
  from re_search_suffix[OF this]
  show "((ic, r, Suc j, x22), ic, r, i, s) \<in> measure (\<lambda>(ic, r, i, s). length s)"
    by auto
next
  fix ic r i s x2 k y j ya s' c
  assume "re_search ic r i s = Some x2" "(k, y) = x2" "(j, ya) = y" "(s', c) = ya" "j \<noteq> k"
  then have "re_search ic r i s = Some (k, j, s', c)" by simp
  from re_search_suffix[OF this] \<open>j \<noteq> k\<close>
  show "((ic, r, j, s'), ic, r, i, s) \<in> measure (\<lambda>(ic, r, i, s). length s)"
    by auto
qed simp

declare matchAll.simps [simp del]


section \<open>The URL extractor\<close>

datatype category = Images | Css | Js | Fonts

text \<open>
  A \<open>File\<close> of the browser: its name, size and time stamp, and what \<open>file.text()\<close>
  resolves to (\<open>None\<close> when the read is rejected).
\<close>

record local_file =
  file_name :: string
  file_size :: nat
  file_lastModified :: int
  file_text :: "string option"

text \<open>A \<open>Set\<close> of strings is the list of its members in insertion order.\<close>

definition set_add :: "'a \<Rightarrow> 'a list \<Rightarrow> 'a list" where
  "set_add x xs = (if x \<in> set xs then xs else xs @ [x])"

fun seqs :: "re list \<Rightarrow> re" where
  "seqs [] = Eps"
| "seqs [r] = r"
| "seqs (r # rs) = Seq r (seqs rs)"

fun alts :: "re list \<Rightarrow> re" where
  "alts [] = Eps"
| "alts [r] = r"
| "alts (r # rs) = Alt r (alts rs)"

definition dquote :: char where "dquote = CHR 0x22"
definition squote :: char where "squote = CHR 0x27"

definition quotes :: cset where
  "quotes = Chars [squote, dquote]"

text \<open>The class \<open>[^\s"'()]\<close>.\<close>

definition url_char :: cset where
  "url_char = Neg (Union Ws (Chars [dquote, squote, CHR ''('', CHR '')'']))"

text \<open>
  The pattern of the extractor, with the flags \<open>g\<close> and \<open>i\<close>, in the order it is written:
  the optional opening \<open>url(\<close> or quote, the URL (group 1) with its optional scheme,
  the two slashes and the rest up to the extension (group 2) and the optional query
  (group 3), and the optional closing quote and parenthesis.
\<close>

definition urlOpen :: re where
  "urlOpen = Opt (Alt (seqs [Lit ''url('', Star Ws, Opt (Set quotes)]) (Set quotes))"

definition urlScheme :: re where
  "urlScheme = Opt (seqs [Lit ''http'', Opt (Lit ''s''), Lit '':''])"

definition urlRest :: re where
  "urlRest = seqs
     [Plus url_char, Lit ''/'', LazyPlus url_char, Lit ''.'',
      Group 2 (alts
        [Lit ''js'', Lit ''css'', Lit ''png'', seqs [Lit ''jp'', Opt (Lit ''e''), Lit ''g''],
         Lit ''svg'', Lit ''webp'', Lit ''gif'', Lit ''mp4'', Lit ''webm'', Lit ''ogg'',
         seqs [Lit ''woff'', Opt (Lit ''2'')], Lit ''ttf'', Lit ''otf'', Lit ''eot'']),
      Opt (Group 3 (seqs [Lit ''?'', Star url_char]))]"

definition urlBody :: re where
  "urlBody = seqs [urlScheme, Lit ''//'', urlRest]"

definition urlClose :: re where
  "urlClose = Opt (seqs [Opt (Set quotes), Star Ws, Lit '')''])"

definition urlRegex :: re where
  "urlRegex = seqs [urlOpen, Group 1 urlBody, urlClose]"

text \<open>The class \<open>[^"')\s]\<close> and the two patterns that classify by extension.\<close>

definition tail_char :: cset where
  "tail_char = Neg (Union (Chars [dquote, squote, CHR '')'']) Ws)"

definition imageRegex :: re where
  "imageRegex = seqs
     [Lit ''.'',
      Group 1 (alts
        [Lit ''png'', seqs [Lit ''jp'', Opt (Lit ''e''), Lit ''g''], Lit ''svg'', Lit ''webp'',
         Lit ''gif'', Lit ''mp4'', Lit ''webm'', Lit ''ogg'']),
      Opt (Group 2 (seqs [Set (Chars ''?#''), Star tail_char])),
      Eol]"

definition fontRegex :: re where
  "fontRegex = seqs
     [Lit ''.'',
      Group 1 (alts [seqs [Lit ''woff'', Opt (Lit ''2'')], Lit ''ttf'', Lit ''otf'', Lit ''eot'']),
      Opt (Group 2 (seqs [Set (Chars ''?#''), Star tail_char])),
      Eol]"

type_synonym assets = "category \<Rightarrow> string list"

text \<open>\<open>rawUrl.startsWith('//') ? 'https:' + rawUrl : rawUrl\<close>\<close>

definition normalizeProtocol :: "string \<Rightarrow> string" where
  "normalizeProtocol rawUrl = (if prefix ''//'' rawUrl then ''https:'' @ rawUrl else rawUrl)"

definition processMatch :: "(category \<Rightarrow> bool) \<Rightarrow> assets \<Rightarrow> string \<Rightarrow> assets" where
  "processMatch include assets rawUrl =
     (let fullUrl = normalizeProtocol rawUrl in
      if (suffix ''.js'' fullUrl \<or> sublist ''.js?'' fullUrl) \<and> include Js
        then assets(Js := set_add fullUrl (assets Js))
      else if (suffix ''.css'' fullUrl \<or> sublist ''.css?'' fullUrl) \<and> include Css
        then assets(Css := set_add fullUrl (assets Css))
      else if re_test True imageRegex fullUrl \<and> include Images
        then assets(Images := set_add fullUrl (assets Images))
      else if re_test True fontRegex fullUrl \<and> include Fonts
        then assets(Fonts := set_add fullUrl (assets Fonts))
      else assets)"

text \<open>
  The \<open>forEach\<close> over the matches of one file. A match without its first group would
  raise in \<open>startsWith\<close>; the \<open>catch\<close> of the file then drops the matches that follow.
\<close>

fun forEachMatch :: "(category \<Rightarrow> bool) \<Rightarrow> caps list \<Rightarrow> assets \<Rightarrow> assets" where
  "forEachMatch include [] assets = assets"
| "forEachMatch include (m # ms) assets =
     (case m 1 of
        None \<Rightarrow> assets
      | Some rawUrl \<Rightarrow> forEachMatch include ms (processMatch include assets rawUrl))"

fun extractLoop :: "local_file list \<Rightarrow> (category \<Rightarrow> bool) \<Rightarrow> assets \<Rightarrow> assets" where
  "extractLoop [] include assets = assets"
| "extractLoop (f # fs) include assets =
     extractLoop fs include
       (case file_text f of
          None \<Rightarrow> assets
        | Some t \<Rightarrow> forEachMatch include (matchAll True urlRegex 0 t) assets)"

definition extractAssetsFromFiles :: "local_file list \<Rightarrow> (category \<Rightarrow> bool) \<Rightarrow> assets" where
  "extractAssetsFromFiles files include = extractLoop files include (\<lambda>_. [])"


section \<open>Collision-free names\<close>

definition duplicate_name :: "nat \<Rightarrow> string \<Rightarrow> string" where
  "duplicate_name i base = ''duplicate-'' @ string_of_nat i @ ''-'' @ base"

text \<open>The value of a decimal numeral, to tell the renderings of two counters apart.\<close>

definition digits_value :: "string \<Rightarrow> nat" where
  "digits_value s = foldl (\<lambda>a c. 10 * a + (of_char c - 48)) 0 s"

lemma digits_value_string_of_nat: "digits_value (string_of_nat n) = n"
proof (induction n rule: string_of_nat.induct)
  case (1 n)
  show ?case
  proof (cases "n < 10")
    case True
    then show ?thesis
      by (subst string_of_nat.simps) (simp add: digits_value_def digit_char_def)
  next
    case False
    have "n mod 10 < 10" by simp
    then have d: "(of_char (digit_char (n mod 10)) :: nat) - 48 = n mod 10"
      by (simp add: digit_char_def)
    from False 1 have "digits_value (string_of_nat (n div 10)) = n div 10"
      by simp
    with False d show ?thesis
      by (subst string_of_nat.simps) (simp add: digits_value_def)
  qed
qed

lemma inj_string_of_nat: "inj string_of_nat"
  by (rule inj_on_inverseI[where g = digits_value]) (rule digits_value_string_of_nat)

lemma inj_duplicate_name: "inj (\<lambda>i. duplicate_name i base)"
proof (rule injI)
  fix i j
  assume "duplicate_name i base = duplicate_name j base"
  then have "string_of_nat i = string_of_nat j"
    by (simp add: duplicate_name_def)
  then show "i = j"
    using inj_string_of_nat by (simp add: inj_def)
qed

lemma finite_duplicates: "finite {j. duplicate_name j base \<in> set tracker}"
proof -
  have "finite ((\<lambda>i. duplicate_name i base) -` set tracker)"
    by (rule finite_vimageI) (simp_all add: inj_duplicate_name)
  then show ?thesis by (simp add: vimage_def)
qed

text \<open>
  The loop \<open>while (tracker.has(name)) name = `duplicate-${i++}-${base}`\<close>, which the
  script writes out for the fetched names and once for every folder of the archive. It
  ends: the renderings of two counters differ and the tracker is finite.
\<close>

function uniqueLoop :: "string list \<Rightarrow> string \<Rightarrow> nat \<Rightarrow> string \<Rightarrow> string" where
  "uniqueLoop tracker base i name =
     (if name \<in> set tracker then uniqueLoop tracker base (Suc i) (duplicate_name i base)
      else name)"
  by pat_completeness auto
termination
proof (relation "measure (\<lambda>(tracker, base, i, name).
    (if name \<in> set tracker then 1 else 0) +
    card {j. i \<le> j \<and> duplicate_name j base \<in> set tracker})")
  fix tracker :: "string list" and base :: string and i :: nat and name :: string
  assume mem: "name \<in> set tracker"
  let ?D = "\<lambda>i. {j. i \<le> j \<and> duplicate_name j base \<in> set tracker}"
  have fin: "finite (?D i)" for i
    by (rule finite_subset[OF _ finite_duplicates[of base tracker]]) auto
  show "((tracker, base, Suc i, duplicate_name i base), tracker, base, i, name)
       \<in> measure (\<lambda>(tracker, base, i, name).
            (if name \<in> set tracker then 1 else 0) +
            card {j. i \<le> j \<and> duplicate_name j base \<in> set tracker})"
  proof (cases "duplicate_name i base \<in> set tracker")
    case True
    then have "?D i = insert i (?D (Suc i))"
      by (auto simp: le_Suc_eq)
    moreover have "i \<notin> ?D (Suc i)" by simp
    ultimately have "card (?D i) = Suc (card (?D (Suc i)))"
      using fin[of "Suc i"] by simp
    with mem True show ?thesis by simp
  next
    case False
    then have "?D i = ?D (Suc i)"
      by (auto simp: Suc_le_eq order_le_less)
    with mem False show ?thesis by simp
  qed
qed simp

declare uniqueLoop.simps [simp del]

section \<open>The remote asset fetcher\<close>

type_synonym blob = string

text \<open>
  What a \<open>fetch\<close> settles to: a rejection with its message, or a response with its
  status and what \<open>res.blob()\<close> gives (\<open>Inl\<close> the message when reading the body fails).
  \<open>res.ok\<close> is a status from 200 to 299.
\<close>

datatype response = NetworkError string | Response nat "string + blob"

definition ok :: "nat \<Rightarrow> bool" where
  "ok status = (200 \<le> status \<and> status \<le> 299)"

record failed_asset =
  failed_url :: string
  failed_type :: category
  failed_reason :: string

text \<open>A \<open>Map\<close> is the list of its entries in insertion order; \<open>set\<close> keeps the place of a key.\<close>

fun map_set :: "'k \<Rightarrow> 'v \<Rightarrow> ('k \<times> 'v) list \<Rightarrow> ('k \<times> 'v) list" where
  "map_set k v [] = [(k, v)]"
| "map_set k v (e # m) = (if fst e = k then (k, v) # m else e # map_set k v m)"

type_synonym valid_maps = "category \<Rightarrow> (string \<times> blob) list"

record result =
  valid :: valid_maps
  failed :: "failed_asset list"

record fetch_state = result +
  assetNameTracker :: "string list"

text \<open>\<open>url.split('/').pop().split('?')[0].split('#')[0]\<close>\<close>

definition baseOfUrl :: "string \<Rightarrow> string" where
  "baseOfUrl url = split_first (CHR ''#'') (split_first (CHR ''?'') (split_pop_slash url))"

definition generateUniqueName :: "string \<Rightarrow> string list \<Rightarrow> string \<times> string list" where
  "generateUniqueName url tracker =
     (let base = baseOfUrl url;
          name = uniqueLoop tracker base 1 base
      in (name, set_add name tracker))"

text \<open>The pattern \<open>^https?:\/\/\<close>, without flags.\<close>

definition schemeRegex :: re where
  "schemeRegex = seqs [Bol, Lit ''http'', Opt (Lit ''s''), Lit '':'', Lit ''//'']"

definition fetchUrl :: "string \<Rightarrow> string" where
  "fetchUrl rawUrl = (let url = trim rawUrl in if prefix ''//'' url then ''https:'' @ url else url)"

type_synonym pending = "category \<times> string"

text \<open>
  The synchronous loops: every URL of every category, in the order of the keys of the
  extractor's object, is either refused at once or fetched.
\<close>

fun issueUrls :: "category \<Rightarrow> string list \<Rightarrow> fetch_state \<times> pending list \<Rightarrow> fetch_state \<times> pending list" where
  "issueUrls type [] acc = acc"
| "issueUrls type (rawUrl # urls) (st, allFetches) =
     (let url = fetchUrl rawUrl in
      if \<not> re_test False schemeRegex url
      then issueUrls type urls
             (st\<lparr>failed := failed st @
                [\<lparr>failed_url = rawUrl, failed_type = type,
                  failed_reason = ''Unsupported or local path''\<rparr>]\<rparr>, allFetches)
      else issueUrls type urls (st, allFetches @ [(type, url)]))"

definition emptyState :: fetch_state where
  "emptyState = \<lparr>valid = (\<lambda>_. []), failed = [], assetNameTracker = []\<rparr>"

definition issueAll :: "assets \<Rightarrow> fetch_state \<times> pending list" where
  "issueAll assets =
     foldl (\<lambda>acc type. issueUrls type (assets type) acc) (emptyState, []) [Images, Css, Js, Fonts]"

text \<open>The two callbacks of one fetch, run when it settles.\<close>

definition reject :: "pending \<Rightarrow> string \<Rightarrow> fetch_state \<Rightarrow> fetch_state" where
  "reject p message st =
     st\<lparr>failed := failed st @
        [\<lparr>failed_url = snd p, failed_type = fst p, failed_reason = message\<rparr>]\<rparr>"

definition settle :: "fetch_state \<Rightarrow> pending \<times> response \<Rightarrow> fetch_state" where
  "settle st pr =
     (case pr of (p, res) \<Rightarrow>
       (case res of
          NetworkError message \<Rightarrow> reject p message st
        | Response status body \<Rightarrow>
            if \<not> ok status then reject p (''HTTP '' @ string_of_nat status) st
            else (case body of
                    Inl message \<Rightarrow> reject p message st
                  | Inr blob \<Rightarrow>
                      (case generateUniqueName (snd p) (assetNameTracker st) of
                         (filename, tracker) \<Rightarrow>
                           st\<lparr>valid := (valid st)(fst p := map_set filename blob (valid st (fst p))),
                              assetNameTracker := tracker\<rparr>))))"

text \<open>
  The fetches run concurrently and settle in an order the network decides: \<open>env\<close> gives,
  for the fetches issued, the settled fetches in the order their callbacks run, each with
  its outcome. The callbacks run one at a time.
\<close>

type_synonym network = "pending list \<Rightarrow> (pending \<times> response) list"

definition settleAll :: "network \<Rightarrow> assets \<Rightarrow> fetch_state" where
  "settleAll env assets = (case issueAll assets of (st, allFetches) \<Rightarrow> foldl settle st (env allFetches))"

definition validateAndFetchAssets :: "network \<Rightarrow> assets \<Rightarrow> result" where
  "validateAndFetchAssets env assets = result.truncate (settleAll env assets)"


section \<open>The page state and the local files\<close>

record app_state =
  collectedFiles :: "local_file list"
  uploadedFileSet :: "string list"
  zipContent :: "valid_maps option"
  testNameInput :: string
  generateBtn_disabled :: bool

definition fileKey_of :: "local_file \<Rightarrow> string" where
  "fileKey_of f =
     file_name f @ ''-'' @ string_of_nat (file_size f) @ ''-'' @ string_of_int (file_lastModified f)"

fun newUnique :: "local_file list \<Rightarrow> string list \<Rightarrow> local_file list \<Rightarrow> local_file list \<times> string list" where
  "newUnique [] uploaded newUniqueFiles = (newUniqueFiles, uploaded)"
| "newUnique (f # fs) uploaded newUniqueFiles =
     (if fileKey_of f \<notin> set uploaded
      then newUnique fs (set_add (fileKey_of f) uploaded) (newUniqueFiles @ [f])
      else newUnique fs uploaded newUniqueFiles)"

definition updatePreview :: "local_file list \<Rightarrow> app_state \<Rightarrow> app_state" where
  "updatePreview newFiles st =
     (case newUnique newFiles (uploadedFileSet st) [] of
        (newUniqueFiles, uploaded) \<Rightarrow>
          st\<lparr>collectedFiles := collectedFiles st @ newUniqueFiles, uploadedFileSet := uploaded\<rparr>)"

text \<open>The pattern \<open>\.(js|css|html)$\<close> of the drop listener, without flags.\<close>

definition dropRegex :: re where
  "dropRegex = seqs [Lit ''.'', Group 1 (alts [Lit ''js'', Lit ''css'', Lit ''html'']), Eol]"

definition onDrop :: "local_file list \<Rightarrow> app_state \<Rightarrow> app_state" where
  "onDrop files st =
     (let dropped = filter (\<lambda>f. re_test False dropRegex (file_name f)) files
      in updatePreview dropped st)"

section \<open>The base name\<close>

text \<open>\<open>replace(/\s+/g, '-')\<close>: every maximal run of white space becomes one hyphen.\<close>

function replace_space_runs :: "string \<Rightarrow> string" where
  "replace_space_runs [] = []"
| "replace_space_runs (c # cs) =
     (if is_space c then CHR ''-'' # replace_space_runs (dropWhile is_space cs)
      else c # replace_space_runs cs)"
  by pat_completeness auto
termination
  by (relation "measure length") (auto simp: length_dropWhile_le less_Suc_eq_le)

text \<open>The class \<open>[a-zA-Z0-9-]\<close>; \<open>replace(/[^a-zA-Z0-9-]/g, '')\<close> keeps its members.\<close>

definition name_char :: cset where
  "name_char = Union (Range (CHR ''a'') (CHR ''z''))
     (Union (Range (CHR ''A'') (CHR ''Z'')) (Union (Range (CHR ''0'') (CHR ''9'')) (Chars ''-'')))"

definition strip_special :: "string \<Rightarrow> string" where
  "strip_special s = filter (cset_has False name_char) s"

text \<open>The pattern \<open>^[a-zA-Z0-9-]+$\<close>.\<close>

definition nameRegex :: re where
  "nameRegex = seqs [Bol, Plus name_char, Eol]"

definition validateInputs :: "app_state \<Rightarrow> app_state" where
  "validateInputs st =
     (let name = trim (testNameInput st);
          name = strip_special (replace_space_runs name);
          isValid = (re_test False nameRegex name \<and> length name > 0)
      in st\<lparr>testNameInput := name, generateBtn_disabled := \<not> isValid\<rparr>)"

section \<open>The archive builder\<close>

text \<open>
  The archive is the \<open>files\<close> object of the zip library: entries by full path, in
  insertion order. The library adds an entry with the option \<open>createFolders\<close> on, its
  default: before the entry it adds the folder over it, and so every folder over the
  path that is missing.
\<close>

datatype payload = FromFile local_file | FromBlob blob

datatype zip_entry = Folder | Stored payload

type_synonym zip = "(string \<times> zip_entry) list"

text \<open>\<open>forceTrailingSlash\<close> of the library: \<open>if (path.slice(-1) !== "/") path += "/"\<close>.\<close>

definition forceTrailingSlash :: "string \<Rightarrow> string" where
  "forceTrailingSlash path = (if path \<noteq> [] \<and> last path = CHR ''/'' then path else path @ ''/'')"

text \<open>\<open>lastIndexOf("/")\<close>, with \<open>None\<close> for \<open>-1\<close>.\<close>

definition lastIndexOf_slash :: "string \<Rightarrow> nat option" where
  "lastIndexOf_slash s =
     (if CHR ''/'' \<in> set s
      then Some (length s - 1 - length (takeWhile (\<lambda>c. c \<noteq> CHR ''/'') (rev s)))
      else None)"

text \<open>
  \<open>parentFolder\<close> of the library: a slash at the end is cut, and the parent is what
  stands before the last slash left, or the empty string when that slash is the first
  character or there is none.
\<close>

definition parentFolder :: "string \<Rightarrow> string" where
  "parentFolder path =
     (let path = (if path \<noteq> [] \<and> last path = CHR ''/'' then butlast path else path)
      in case lastIndexOf_slash path of
           None \<Rightarrow> []
         | Some lastSlash \<Rightarrow> if lastSlash > 0 then take lastSlash path else [])"

lemma parentFolder_shorter:
  "parentFolder (forceTrailingSlash name) \<noteq> [] \<Longrightarrow>
     length (parentFolder (forceTrailingSlash name)) < length name"
  by (cases "name = []")
     (auto simp: parentFolder_def forceTrailingSlash_def lastIndexOf_slash_def Let_def
           split: if_splits option.splits)

text \<open>
  \<open>folderAdd\<close> of the library, with the part of \<open>fileAdd\<close> it runs for a folder: nothing
  is done when the path is there; otherwise the parent is added first, when there is
  one, and then the folder.
\<close>

function folderAdd :: "string \<Rightarrow> zip \<Rightarrow> zip" where
  "folderAdd name z =
     (let name = forceTrailingSlash name
      in if map_of z name = None then
           (let parent = parentFolder name;
                z = (if parent \<noteq> [] then folderAdd parent z else z)
            in map_set name Folder z)
         else z)"
  by pat_completeness auto
termination
  by (relation "measure (\<lambda>(name, z). length name)") (auto simp: parentFolder_shorter)

declare folderAdd.simps [simp del]

text \<open>
  \<open>folder(name)\<close> gives the archive itself for an empty name, and otherwise adds the
  folder of root and name and gives the path of that entry as the new root.
\<close>

definition zip_folder :: "string \<Rightarrow> string \<Rightarrow> zip \<Rightarrow> string \<times> zip" where
  "zip_folder root name z =
     (if name = [] then (root, z)
      else (let name = root @ name
            in (forceTrailingSlash name, folderAdd name z)))"

text \<open>
  \<open>file(name, data)\<close> stores under root and name, replacing an entry of that path, after
  the folder over the path.
\<close>

definition zip_file :: "string \<Rightarrow> string \<Rightarrow> payload \<Rightarrow> zip \<Rightarrow> zip" where
  "zip_file root name data z =
     (let name = root @ name;
          parent = parentFolder name;
          z = (if parent \<noteq> [] then folderAdd parent z else z)
      in map_set name (Stored data) z)"

text \<open>
  The loop over the local files tests the key of the file, which it never changes: once
  entered it does not end. \<open>None\<close> is that run.
\<close>

partial_function (option) localNameLoop ::
    "string list \<Rightarrow> string \<Rightarrow> string \<Rightarrow> nat \<Rightarrow> string \<Rightarrow> string option" where
  "localNameLoop fileKeyTracker fileKey fname i baseName =
     (if fileKey \<in> set fileKeyTracker
      then localNameLoop fileKeyTracker fileKey fname (Suc i) (duplicate_name i fname)
      else Some baseName)"

fun addLocalFiles :: "string \<Rightarrow> local_file list \<Rightarrow> string list \<Rightarrow> zip \<Rightarrow> zip option" where
  "addLocalFiles root [] fileKeyTracker z = Some z"
| "addLocalFiles root (f # fs) fileKeyTracker z =
     (case localNameLoop fileKeyTracker (fileKey_of f) (file_name f) 1 (file_name f) of
        None \<Rightarrow> None
      | Some baseName \<Rightarrow>
          addLocalFiles root fs (set_add (fileKey_of f) fileKeyTracker)
            (zip_file root baseName (FromFile f) z))"

text \<open>The patterns \<open>\.(gif|mp4|webm|ogg)$\<close>, \<open>\.(mp4|webm|ogg)$\<close> and \<open>\.gif$\<close>, each with the flag \<open>i\<close>.\<close>

definition gifOrVideoRegex :: re where
  "gifOrVideoRegex =
     seqs [Lit ''.'', Group 1 (alts [Lit ''gif'', Lit ''mp4'', Lit ''webm'', Lit ''ogg'']), Eol]"

definition videoRegex :: re where
  "videoRegex = seqs [Lit ''.'', Group 1 (alts [Lit ''mp4'', Lit ''webm'', Lit ''ogg'']), Eol]"

definition gifRegex :: re where
  "gifRegex = seqs [Lit ''.gif'', Eol]"

text \<open>
  One \<open>forEach\<close> over a map into a folder, with the tracker of that folder: the entries
  the test wants are stored under their name cut at the first \<open>?\<close> or \<open>#\<close>, renamed
  while the tracker has the name.
\<close>

fun placeEach :: "(string \<Rightarrow> bool) \<Rightarrow> string \<Rightarrow> (string \<times> blob) list \<Rightarrow> string list \<Rightarrow> zip \<Rightarrow> zip" where
  "placeEach want folder [] normalizedTracker z = z"
| "placeEach want folder (e # rest) normalizedTracker z =
     (if want (fst e) then
        (let baseFilename = split_first_query_or_hash (fst e);
             finalName = uniqueLoop normalizedTracker baseFilename 1 baseFilename
         in placeEach want folder rest (set_add finalName normalizedTracker)
              (zip_file folder finalName (FromBlob (snd e)) z))
      else placeEach want folder rest normalizedTracker z)"

definition placeFolder :: "(string \<Rightarrow> bool) \<Rightarrow> string \<Rightarrow> string \<Rightarrow> (string \<times> blob) list \<Rightarrow> zip \<Rightarrow> zip" where
  "placeFolder want parent name entries z =
     (case zip_folder parent name z of (folder, z') \<Rightarrow> placeEach want folder entries [] z')"

text \<open>
  \<open>hasAssets(type)\<close> for a key of \<open>zipContent\<close>. The object has no key \<open>videos\<close> or
  \<open>gifs\<close>: for them \<open>hasAssets\<close> is false.
\<close>

definition hasAssets :: "valid_maps \<Rightarrow> category \<Rightarrow> bool" where
  "hasAssets zc type = (zc type \<noteq> [])"

definition hasVideo :: "valid_maps \<Rightarrow> bool" where
  "hasVideo zc = list_ex (\<lambda>e. re_test True videoRegex (fst e)) (zc Images)"

definition hasGif :: "valid_maps \<Rightarrow> bool" where
  "hasGif zc = list_ex (\<lambda>e. re_test True gifRegex (fst e)) (zc Images)"

definition addAssetsFolder :: "string \<Rightarrow> valid_maps \<Rightarrow> zip \<Rightarrow> zip" where
  "addAssetsFolder root zc z =
     (if hasAssets zc Images \<or> hasAssets zc Fonts \<or> False \<or> False then
        (case zip_folder root ''assets'' z of
           (assets, z0) \<Rightarrow>
             (let z1 = (if hasAssets zc Images
                        then placeFolder (\<lambda>filename. \<not> re_test True gifOrVideoRegex filename)
                               assets ''images'' (zc Images) z0
                        else z0);
                  z2 = (if hasAssets zc Fonts
                        then placeFolder (\<lambda>_. True) assets ''fonts'' (zc Fonts) z1
                        else z1);
                  z3 = (if hasVideo zc
                        then placeFolder (re_test True videoRegex) assets ''videos'' (zc Images) z2
                        else z2);
                  z4 = (if hasGif zc
                        then placeFolder (re_test True gifRegex) assets ''gifs'' (zc Images) z3
                        else z3)
              in z4))
      else z)"

definition addScriptAndStyle :: "string \<Rightarrow> valid_maps \<Rightarrow> zip \<Rightarrow> zip" where
  "addScriptAndStyle root zc z =
     (let z1 = (if hasAssets zc Js then placeFolder (\<lambda>_. True) root ''script'' (zc Js) z else z);
          z2 = (if hasAssets zc Css then placeFolder (\<lambda>_. True) root ''style'' (zc Css) z1 else z1)
      in z2)"

datatype error = TypeError

text \<open>
  The listener of the generate button, up to the call that serialises the archive.
  \<open>None\<close>: the listener does not return. \<open>Inl TypeError\<close>: no scan has set \<open>zipContent\<close>,
  and reading a key of \<open>null\<close> raises.
\<close>

definition folderName :: "app_state \<Rightarrow> string" where
  "folderName st = trim (testNameInput st) @ ''-devpack''"

definition generateZip :: "app_state \<Rightarrow> (error + zip) option" where
  "generateZip st =
     (case zip_folder [] (folderName st) [] of
        (root, z0) \<Rightarrow>
          (case addLocalFiles root (collectedFiles st) [] z0 of
             None \<Rightarrow> None
           | Some z1 \<Rightarrow>
               (case zipContent st of
                  None \<Rightarrow> Some (Inl TypeError)
                | Some zc \<Rightarrow> Some (Inr (addScriptAndStyle root zc (addAssetsFolder root zc z1))))))"

section \<open>Inputs of the examples\<close>

definition env404 :: network where
  "env404 ps = map (\<lambda>p. (p, Response 404 (Inl ''''))) ps"

text \<open>What a settled fetch that did not succeed leaves as its reason.\<close>

definition failure_reason :: "response \<Rightarrow> string option" where
  "failure_reason res =
     (case res of
        NetworkError message \<Rightarrow> Some message
      | Response status body \<Rightarrow>
          if \<not> ok status then Some (''HTTP '' @ string_of_nat status)
          else (case body of Inl message \<Rightarrow> Some message | Inr blob \<Rightarrow> None))"

definition initialState :: app_state where
  "initialState =
     \<lparr>collectedFiles = [], uploadedFileSet = [], zipContent = None, testNameInput = '''',
      generateBtn_disabled = True\<rparr>"

definition noAssets :: valid_maps where
  "noAssets = (\<lambda>_. [])"

text \<open>Two files of one name and two sizes.\<close>

definition small_a :: local_file where
  "small_a = \<lparr>file_name = ''a.js'', file_size = 1, file_lastModified = 0, file_text = None\<rparr>"

definition large_a :: local_file where
  "large_a = \<lparr>file_name = ''a.js'', file_size = 2, file_lastModified = 0, file_text = None\<rparr>"

definition twoFilesState :: app_state where
  "twoFilesState =
     (onDrop [small_a, large_a] initialState)\<lparr>zipContent := Some noAssets, testNameInput := ''t''\<rparr>"

text \<open>A scan that fetched one animation and nothing else.\<close>

definition onlyGif :: valid_maps where
  "onlyGif = noAssets(Images := [(''a.gif'', ''GIF89a'')])"

definition onlyGifState :: app_state where
  "onlyGifState = initialState\<lparr>zipContent := Some onlyGif, testNameInput := ''t''\<rparr>"

text \<open>A URL whose query holds a slash, in a file of its own, and a network that answers.\<close>

definition slashQueryUrl :: string where
  "slashQueryUrl = ''https://x.com/a/b.png?r=/c''"

definition slashQueryFile :: local_file where
  "slashQueryFile =
     \<lparr>file_name = ''page.html'', file_size = 26, file_lastModified = 0,
      file_text = Some slashQueryUrl\<rparr>"

definition allIncluded :: "category \<Rightarrow> bool" where
  "allIncluded = (\<lambda>_. True)"

definition envOk :: network where
  "envOk ps = map (\<lambda>p. (p, Response 200 (Inr ''data''))) ps"

text \<open>
  The words of the round-trip property. The final path segment of a URL: its path ends
  at the first \<open>?\<close> or \<open>#\<close>, and the segment is what follows the last slash of the path.
  A name is stripped of a prefix \<open>duplicate-<n>-\<close> when it has one.
\<close>

definition final_path_segment :: "string \<Rightarrow> string" where
  "final_path_segment url = split_pop_slash (split_first_query_or_hash url)"

definition is_digit :: "char \<Rightarrow> bool" where
  "is_digit c = in_range (CHR ''0'') (CHR ''9'') c"

definition strip_duplicate_prefix :: "string \<Rightarrow> string" where
  "strip_duplicate_prefix name =
     (if prefix ''duplicate-'' name then
        (let rest = drop 10 name; ds = takeWhile is_digit rest; after = dropWhile is_digit rest
         in if ds \<noteq> [] \<and> prefix ''-'' after then drop 1 after else name)
      else name)"

section \<open>What a pattern accepts\<close>

text \<open>
  \<open>accepts ic r i u rest\<close>: at index \<open>i\<close> the pattern \<open>r\<close> can consume \<open>u\<close> when \<open>rest\<close>
  follows. The search of \<open>rmatch\<close> finds exactly these ways.
\<close>

fun accepts :: "bool \<Rightarrow> re \<Rightarrow> nat \<Rightarrow> string \<Rightarrow> string \<Rightarrow> bool" where
  "accepts ic Eps i u rest = (u = [])"
| "accepts ic (Lit p) i u rest = (map (canon ic) u = map (canon ic) p)"
| "accepts ic (Set cs) i u rest = (\<exists>x. u = [x] \<and> cset_has ic cs x)"
| "accepts ic Bol i u rest = (u = [] \<and> i = 0)"
| "accepts ic Eol i u rest = (u = [] \<and> rest = [])"
| "accepts ic (Seq a b) i u rest =
     (\<exists>v w. u = v @ w \<and> accepts ic a i v (w @ rest) \<and> accepts ic b (i + length v) w rest)"
| "accepts ic (Alt a b) i u rest = (accepts ic a i u rest \<or> accepts ic b i u rest)"
| "accepts ic (Opt a) i u rest = (u = [] \<or> accepts ic a i u rest)"
| "accepts ic (Star cs) i u rest = list_all (cset_has ic cs) u"
| "accepts ic (Plus cs) i u rest = (u \<noteq> [] \<and> list_all (cset_has ic cs) u)"
| "accepts ic (LazyPlus cs) i u rest = (u \<noteq> [] \<and> list_all (cset_has ic cs) u)"
| "accepts ic (Group n a) i u rest = accepts ic a i u rest"

text \<open>A style sheet whose name is in upper case, and the text of an image tag.\<close>

definition upper_css :: local_file where
  "upper_css =
     \<lparr>file_name = ''STYLE.CSS'', file_size = 3, file_lastModified = 0, file_text = None\<rparr>"

definition imgTagText :: string where
  "imgTagText = ''<img src='' @ [dquote] @ ''//cdn.example.com/a/b.png'' @ [dquote] @ ''>''"

definition imgTagFile :: local_file where
  "imgTagFile =
     \<lparr>file_name = ''index.html'', file_size = 38, file_lastModified = 0,
      file_text = Some imgTagText\<rparr>"

definition myTestState :: app_state where
  "myTestState = initialState\<lparr>testNameInput := ''My Test #1''\<rparr>"

text \<open>
  The sanitization in the words of the interface section: every run of white space
  becomes a hyphen, every character outside the class is dropped.
\<close>

definition sanitize_as_stated :: "string \<Rightarrow> string" where
  "sanitize_as_stated v = strip_special (replace_space_runs v)"

text \<open>The names a batch generated, over the four maps, and the fetches that succeeded.\<close>

definition fetchedNames :: "valid_maps \<Rightarrow> string list" where
  "fetchedNames v = map fst (v Images) @ map fst (v Fonts) @ map fst (v Css) @ map fst (v Js)"

definition successful :: "pending \<times> response \<Rightarrow> bool" where
  "successful pr = (failure_reason (snd pr) = None)"

text \<open>An image and a font of one base name.\<close>

definition twoIcons :: assets where
  "twoIcons = (\<lambda>_. [])(Images := [''https://a.com/img/icon.svg''],
                        Fonts := [''https://a.com/fonts/icon.svg''])"

text \<open>A pattern without groups leaves the captures as they are.\<close>

fun group_free :: "re \<Rightarrow> bool" where
  "group_free (Group n a) = False"
| "group_free (Seq a b) = (group_free a \<and> group_free b)"
| "group_free (Alt a b) = (group_free a \<and> group_free b)"
| "group_free (Opt a) = group_free a"
| "group_free r = True"

text \<open>A URL begins with \<open>http://\<close> or \<open>https://\<close>, the case of the letters apart.\<close>

definition has_scheme_ci :: "string \<Rightarrow> bool" where
  "has_scheme_ci u =
     (map (canon True) (take 7 u) = map (canon True) ''http://'' \<or>
      map (canon True) (take 8 u) = map (canon True) ''https://'')"

text \<open>The entries the synchronous loop leaves in \<open>failed\<close> for the URLs of a category.\<close>

definition refused :: "(string \<Rightarrow> bool) \<Rightarrow> category \<Rightarrow> string list \<Rightarrow> failed_asset list" where
  "refused passes t urls =
     map (\<lambda>u. \<lparr>failed_url = u, failed_type = t, failed_reason = ''Unsupported or local path''\<rparr>)
       (filter (\<lambda>u. \<not> passes u) urls)"

definition lower_scheme :: "string \<Rightarrow> bool" where
  "lower_scheme u = (prefix ''http://'' u \<or> prefix ''https://'' u)"

text \<open>A file that writes the scheme of its URL in upper case.\<close>

definition upperSchemeUrl :: string where
  "upperSchemeUrl = ''HTTP://cdn.com/a/b.png''"

definition upperSchemeFile :: local_file where
  "upperSchemeFile =
     \<lparr>file_name = ''page.html'', file_size = 22, file_lastModified = 0,
      file_text = Some upperSchemeUrl\<rparr>"

text \<open>
  A name that holds no \<open>?\<close> and no \<open>#\<close>; a name that ends in a given extension, the
  case of the letters apart; and the folder the layout names for an entry of
  \<open>valid.images\<close>: \<open>videos\<close> for \<open>.mp4\<close>, \<open>.webm\<close> and \<open>.ogg\<close>, \<open>gifs\<close> for \<open>.gif\<close>,
  \<open>images\<close> for every other name.
\<close>

definition clean :: "string \<Rightarrow> bool" where
  "clean n = (CHR ''?'' \<notin> set n \<and> CHR ''#'' \<notin> set n)"

definition ends_with_ci :: "string \<Rightarrow> string \<Rightarrow> bool" where
  "ends_with_ci q s = suffix (map (canon True) q) (map (canon True) s)"

definition imageFolder :: "string \<Rightarrow> string" where
  "imageFolder fn =
     (if ends_with_ci ''.mp4'' fn \<or> ends_with_ci ''.webm'' fn \<or> ends_with_ci ''.ogg'' fn
        then ''videos''
      else if ends_with_ci ''.gif'' fn then ''gifs''
      else ''images'')"

text \<open>A path of the archive holds no file.\<close>

definition no_file :: "zip \<Rightarrow> string \<Rightarrow> bool" where
  "no_file z p = (case map_of z p of Some (Stored d) \<Rightarrow> False | _ \<Rightarrow> True)"

text \<open>The file a path of the archive holds, its folders apart.\<close>

definition file_at :: "zip \<Rightarrow> string \<Rightarrow> payload option" where
  "file_at z p = (case map_of z p of Some (Stored d) \<Rightarrow> Some d | _ \<Rightarrow> None)"

text \<open>
  A scan that fetched a picture, a film and an animation, on a page with two local files.
\<close>

definition threeKinds :: assets where
  "threeKinds = (\<lambda>_. [])(Images :=
     [''https://a.com/m/photo.png'', ''https://a.com/m/clip.MP4'', ''https://a.com/m/anim.gif''])"

definition style_b :: local_file where
  "style_b = \<lparr>file_name = ''b.css'', file_size = 3, file_lastModified = 0, file_text = None\<rparr>"

definition threeKindsState :: app_state where
  "threeKindsState =
     (onDrop [small_a, style_b] initialState)
       \<lparr>zipContent := Some (valid (validateAndFetchAssets envOk threeKinds)),
        testNameInput := ''t''\<rparr>"

definition threeKindsZip :: zip where
  "threeKindsZip =
     [(''t-devpack/'', Folder),
      (''t-devpack/a.js'', Stored (FromFile small_a)),
      (''t-devpack/b.css'', Stored (FromFile style_b)),
      (''t-devpack/assets/'', Folder),
      (''t-devpack/assets/images/'', Folder),
      (''t-devpack/assets/images/photo.png'', Stored (FromBlob ''data'')),
      (''t-devpack/assets/videos/'', Folder),
      (''t-devpack/assets/videos/clip.MP4'', Stored (FromBlob ''data'')),
      (''t-devpack/assets/gifs/'', Folder),
      (''t-devpack/assets/gifs/anim.gif'', Stored (FromBlob ''data''))]"

text \<open>
  The set the chain of tests of the extractor picks for a URL, if it picks one: the first
  test of the chain that holds with its flag.
\<close>

definition category_of :: "(category \<Rightarrow> bool) \<Rightarrow> string \<Rightarrow> category option" where
  "category_of include fullUrl =
     (if (suffix ''.js'' fullUrl \<or> sublist ''.js?'' fullUrl) \<and> include Js then Some Js
      else if (suffix ''.css'' fullUrl \<or> sublist ''.css?'' fullUrl) \<and> include Css then Some Css
      else if re_test True imageRegex fullUrl \<and> include Images then Some Images
      else if re_test True fontRegex fullUrl \<and> include Fonts then Some Fonts
      else None)"

text \<open>The text of a script tag with a protocol-relative source.\<close>

definition scriptTagText :: string where
  "scriptTagText =
     ''<script src='' @ [dquote] @ ''//x.com/a/j.min.js'' @ [dquote] @ ''></script>''"

definition scriptTagFile :: local_file where
  "scriptTagFile =
     \<lparr>file_name = ''index.html'', file_size = 42, file_lastModified = 0,
      file_text = Some scriptTagText\<rparr>"

text \<open>
  What \<open>updatePreview\<close> keeps of the page: the files it collected have distinct identity
  keys, each of them in \<open>uploadedFileSet\<close>.
\<close>

definition keys_tracked :: "app_state \<Rightarrow> bool" where
  "keys_tracked st =
     (distinct (map fileKey_of (collectedFiles st)) \<and>
      set (map fileKey_of (collectedFiles st)) \<subseteq> set (uploadedFileSet st))"

section \<open>Facts shared by the claims\<close>

lemma string_of_nat_404: "string_of_nat 404 = ''404''"
  by code_simp

lemma reject_simps [simp]:
  "failed (reject p m st) =
     failed st @ [\<lparr>failed_url = snd p, failed_type = fst p, failed_reason = m\<rparr>]"
  "valid (reject p m st) = valid st"
  "assetNameTracker (reject p m st) = assetNameTracker st"
  by (simp_all add: reject_def)

lemma settle_failed_mono: "set (failed st) \<subseteq> set (failed (settle st pr))"
  by (auto simp: settle_def split: prod.splits response.splits sum.splits)

lemma foldl_settle_failed_mono: "set (failed st) \<subseteq> set (failed (foldl settle st prs))"
proof (induction prs arbitrary: st)
  case Nil
  show ?case by simp
next
  case (Cons pr prs)
  have "set (failed st) \<subseteq> set (failed (settle st pr))"
    by (rule settle_failed_mono)
  also have "\<dots> \<subseteq> set (failed (foldl settle (settle st pr) prs))"
    by (rule Cons.IH)
  finally show ?case by simp
qed

lemma settle_failure:
  "failure_reason res = Some m \<Longrightarrow> settle st (p, res) = reject p m st"
  by (auto simp: settle_def failure_reason_def split: response.splits sum.splits if_splits)

lemma foldl_settle_failure:
  "(p, res) \<in> set prs \<Longrightarrow> failure_reason res = Some m \<Longrightarrow>
     \<lparr>failed_url = snd p, failed_type = fst p, failed_reason = m\<rparr>
       \<in> set (failed (foldl settle st prs))"
proof (induction prs arbitrary: st)
  case Nil
  then show ?case by simp
next
  case (Cons pr prs)
  show ?case
  proof (cases "pr = (p, res)")
    case True
    with Cons.prems have "settle st pr = reject p m st"
      by (simp add: settle_failure)
    then have "\<lparr>failed_url = snd p, failed_type = fst p, failed_reason = m\<rparr>
        \<in> set (failed (settle st pr))"
      by simp
    with foldl_settle_failed_mono[of "settle st pr" prs] show ?thesis
      by auto
  next
    case False
    with Cons.prems have "(p, res) \<in> set prs" by simp
    from Cons.IH[OF this Cons.prems(2)] show ?thesis by simp
  qed
qed

lemma failed_validateAndFetchAssets:
  "failed (validateAndFetchAssets env assets) =
     failed (foldl settle (fst (issueAll assets)) (env (snd (issueAll assets))))"
  by (simp add: validateAndFetchAssets_def settleAll_def result.defs case_prod_beta)

lemma issue_example:
  "snd (issueAll ((\<lambda>_. [])(Js := [''https://x.com/f.js'']))) = [(Js, ''https://x.com/f.js'')]"
  by code_simp

section \<open>Failed fetches\<close>

text \<open>
  C4. A fetch that settles with a status outside 200 to 299 appends to \<open>failed\<close> the
  entry of its URL and category with the reason \<open>HTTP\<close> and the status, and changes
  nothing else: in particular no map of \<open>valid\<close>. A fetch that is rejected appends the
  entry with the message of the error. Whatever the order in which the fetches of a
  batch settle, these entries are in the \<open>failed\<close> list the batch returns.
\<close>

theorem failed_fetch_recorded:
  "(\<not> ok status \<longrightarrow>
      settle st ((type, url), Response status body) =
        st\<lparr>failed := failed st @
          [\<lparr>failed_url = url, failed_type = type,
            failed_reason = ''HTTP '' @ string_of_nat status\<rparr>]\<rparr>) \<and>
   settle st ((type, url), NetworkError message) =
     st\<lparr>failed := failed st @
       [\<lparr>failed_url = url, failed_type = type, failed_reason = message\<rparr>]\<rparr> \<and>
   (((type, url), res) \<in> set (env (snd (issueAll assets))) \<longrightarrow>
      (res = NetworkError message \<longrightarrow>
         \<lparr>failed_url = url, failed_type = type, failed_reason = message\<rparr>
           \<in> set (failed (validateAndFetchAssets env assets))) \<and>
      (res = Response status body \<and> \<not> ok status \<longrightarrow>
         \<lparr>failed_url = url, failed_type = type,
           failed_reason = ''HTTP '' @ string_of_nat status\<rparr>
           \<in> set (failed (validateAndFetchAssets env assets))))"
proof (intro conjI impI)
  assume "\<not> ok status"
  then show "settle st ((type, url), Response status body) =
        st\<lparr>failed := failed st @
          [\<lparr>failed_url = url, failed_type = type,
            failed_reason = ''HTTP '' @ string_of_nat status\<rparr>]\<rparr>"
    by (simp add: settle_def reject_def)
next
  show "settle st ((type, url), NetworkError message) =
     st\<lparr>failed := failed st @
       [\<lparr>failed_url = url, failed_type = type, failed_reason = message\<rparr>]\<rparr>"
    by (simp add: settle_def reject_def)
next
  assume m: "((type, url), res) \<in> set (env (snd (issueAll assets)))"
    and r: "res = NetworkError message"
  from r have "failure_reason res = Some message"
    by (simp add: failure_reason_def)
  from foldl_settle_failure[OF m this, of "fst (issueAll assets)"]
  show "\<lparr>failed_url = url, failed_type = type, failed_reason = message\<rparr>
           \<in> set (failed (validateAndFetchAssets env assets))"
    by (simp add: failed_validateAndFetchAssets)
next
  assume m: "((type, url), res) \<in> set (env (snd (issueAll assets)))"
    and r: "res = Response status body \<and> \<not> ok status"
  from r have "failure_reason res = Some (''HTTP '' @ string_of_nat status)"
    by (simp add: failure_reason_def)
  from foldl_settle_failure[OF m this, of "fst (issueAll assets)"]
  show "\<lparr>failed_url = url, failed_type = type,
           failed_reason = ''HTTP '' @ string_of_nat status\<rparr>
           \<in> set (failed (validateAndFetchAssets env assets))"
    by (simp add: failed_validateAndFetchAssets)
qed

text \<open>The scenario of the specification: \<open>https://x.com/f.js\<close> answers 404.\<close>

theorem failed_fetch_recorded_witness:
  "\<not> ok 404 \<and>
   ((Js, ''https://x.com/f.js''), Response 404 (Inl ''''))
     \<in> set (env404 (snd (issueAll ((\<lambda>_. [])(Js := [''https://x.com/f.js''])))))  \<and>
   settle emptyState ((Js, ''https://x.com/f.js''), Response 404 (Inl '''')) =
     emptyState\<lparr>failed :=
       [\<lparr>failed_url = ''https://x.com/f.js'', failed_type = Js, failed_reason = ''HTTP 404''\<rparr>]\<rparr> \<and>
   valid (settle emptyState ((Js, ''https://x.com/f.js''), Response 404 (Inl ''''))) Js = [] \<and>
   \<lparr>failed_url = ''https://x.com/f.js'', failed_type = Js, failed_reason = ''HTTP 404''\<rparr>
     \<in> set (failed (validateAndFetchAssets env404 ((\<lambda>_. [])(Js := [''https://x.com/f.js'']))))"
proof -
  have a: "\<not> ok 404" by (simp add: ok_def)
  have b: "((Js, ''https://x.com/f.js''), Response 404 (Inl ''''))
      \<in> set (env404 (snd (issueAll ((\<lambda>_. [])(Js := [''https://x.com/f.js''])))))"
    by (simp add: issue_example env404_def)
  from a b failed_fetch_recorded[of 404 emptyState Js "''https://x.com/f.js''" "Inl ''''" "''''"
      "Response 404 (Inl '''')" env404 "(\<lambda>_. [])(Js := [''https://x.com/f.js''])" ]
  show ?thesis
    by (simp add: string_of_nat_404 emptyState_def)
qed

section \<open>The loop over the local files\<close>

lemma localNameLoop_fresh:
  "fileKey \<notin> set tracker \<Longrightarrow> localNameLoop tracker fileKey fname i baseName = Some baseName"
  by (subst localNameLoop.simps) simp

lemma localNameLoop_Some:
  assumes "localNameLoop tracker fileKey fname i baseName = Some r"
  shows "fileKey \<notin> set tracker"
  by (rule localNameLoop.raw_induct[where P = "\<lambda>t k f i b r. k \<notin> set t", OF _ assms])
     (auto split: if_splits)

lemma localNameLoop_stuck:
  "fileKey \<in> set tracker \<Longrightarrow> localNameLoop tracker fileKey fname i baseName = None"
  using localNameLoop_Some[of tracker fileKey fname i baseName]
  by (cases "localNameLoop tracker fileKey fname i baseName") auto

lemma no_assets_added [simp]:
  "addAssetsFolder root noAssets z = z"
  "addScriptAndStyle root noAssets z = z"
  by (simp_all add: addAssetsFolder_def addScriptAndStyle_def hasAssets_def noAssets_def)

lemma fileKey_examples:
  "fileKey_of small_a = ''a.js-1-0''"
  "fileKey_of large_a = ''a.js-2-0''"
  by code_simp+

lemma twoFilesState_fields:
  "collectedFiles twoFilesState = [small_a, large_a]"
  "zipContent twoFilesState = Some noAssets"
  "zip_folder [] (folderName twoFilesState) [] = (''t-devpack/'', [(''t-devpack/'', Folder)])"
  by (code_simp, simp add: twoFilesState_def, code_simp)

lemma twoFiles_stored:
  "zip_file ''t-devpack/'' (file_name small_a) (FromFile small_a) [(''t-devpack/'', Folder)] =
     [(''t-devpack/'', Folder), (''t-devpack/a.js'', Stored (FromFile small_a))]"
  "zip_file ''t-devpack/'' (file_name large_a) (FromFile large_a)
     [(''t-devpack/'', Folder), (''t-devpack/a.js'', Stored (FromFile small_a))] =
     [(''t-devpack/'', Folder), (''t-devpack/a.js'', Stored (FromFile large_a))]"
  by code_simp+

section \<open>Local files of one name\<close>

text \<open>
  C1. The claim: two local files with distinct identity keys and one name get distinct
  names in the root folder, the later one a prefix \<open>duplicate-<n>-\<close>. The listener tests
  the identity key where the loops of the other folders test the name: both files of
  the example are kept by the page, have distinct keys, and are stored under the one
  path \<open>t-devpack/a.js\<close>, where the later replaces the earlier.
\<close>

theorem same_name_local_files_overwrite:
  "collectedFiles twoFilesState = [small_a, large_a] \<and>
   fileKey_of small_a \<noteq> fileKey_of large_a \<and>
   generateZip twoFilesState =
     Some (Inr [(''t-devpack/'', Folder), (''t-devpack/a.js'', Stored (FromFile large_a))])"
proof -
  have "addLocalFiles ''t-devpack/'' [small_a, large_a] [] [(''t-devpack/'', Folder)] =
      Some [(''t-devpack/'', Folder), (''t-devpack/a.js'', Stored (FromFile large_a))]"
    by (simp add: fileKey_examples localNameLoop_fresh set_add_def twoFiles_stored)
  then show ?thesis
    by (simp add: generateZip_def twoFilesState_fields fileKey_examples)
qed

section \<open>Folders of the archive\<close>

text \<open>
  C2. The claim: a folder of the archive is created only when an entry qualifies for it,
  so \<open>assets/images\<close> is not created when every entry of \<open>valid.images\<close> is an animation
  or a video. The listener creates \<open>assets/images\<close> whenever \<open>valid.images\<close> is not
  empty, and tests the names only afterwards; the folders \<open>videos\<close> and \<open>gifs\<close> are
  created after a scan for an entry of theirs. With one \<open>.gif\<close> fetched, the archive
  holds the folder \<open>assets/images/\<close> and no file in it.
\<close>

theorem images_folder_without_images:
  "generateZip onlyGifState =
     Some (Inr [(''t-devpack/'', Folder),
                (''t-devpack/assets/'', Folder),
                (''t-devpack/assets/images/'', Folder),
                (''t-devpack/assets/gifs/'', Folder),
                (''t-devpack/assets/gifs/a.gif'', Stored (FromBlob ''GIF89a''))])"
  by code_simp

section \<open>The name of a fetched asset\<close>

text \<open>
  C6. The claim: the name generated for a fetched URL, without a prefix
  \<open>duplicate-<n>-\<close> and without query and fragment, is the final path segment of the URL.
  \<open>generateUniqueName\<close> cuts the URL at its last slash before it cuts the query off, so a
  slash in the query ends the path for it. The URL of the example is extracted from a
  file and fetched; its final path segment is \<open>b.png\<close> and the name it gets is \<open>c\<close>.
\<close>

theorem slash_in_query_names_after_query:
  "extractAssetsFromFiles [slashQueryFile] allIncluded Images = [slashQueryUrl] \<and>
   valid (validateAndFetchAssets envOk (extractAssetsFromFiles [slashQueryFile] allIncluded)) Images
     = [(''c'', ''data'')] \<and>
   split_first_query_or_hash (strip_duplicate_prefix ''c'') = ''c'' \<and>
   final_path_segment slashQueryUrl = ''b.png''"
  by code_simp

section \<open>The search finds what the pattern accepts\<close>

lemma lit_prefix_iff:
  "lit_prefix ic p s = Some s' \<longleftrightarrow> (\<exists>u. s = u @ s' \<and> map (canon ic) u = map (canon ic) p)"
proof (induction ic p s rule: lit_prefix.induct)
  case (1 ic s)
  show ?case by auto
next
  case (2 ic p ps)
  show ?case by auto
next
  case (3 ic p ps c cs)
  show ?case
  proof
    assume "lit_prefix ic (p # ps) (c # cs) = Some s'"
    then have e: "canon ic p = canon ic c" and "lit_prefix ic ps cs = Some s'"
      by (auto split: if_splits)
    with 3 obtain u where "cs = u @ s'" "map (canon ic) u = map (canon ic) ps"
      by auto
    with e have "c # cs = (c # u) @ s' \<and> map (canon ic) (c # u) = map (canon ic) (p # ps)"
      by simp
    then show "\<exists>u. c # cs = u @ s' \<and> map (canon ic) u = map (canon ic) (p # ps)"
      by blast
  next
    assume "\<exists>u. c # cs = u @ s' \<and> map (canon ic) u = map (canon ic) (p # ps)"
    then obtain u where u: "c # cs = u @ s'" "map (canon ic) u = map (canon ic) (p # ps)"
      by blast
    from u(2) obtain x u' where x: "u = x # u'" by (cases u) auto
    with u have "x = c" "cs = u' @ s'" "canon ic c = canon ic p"
      "map (canon ic) u' = map (canon ic) ps"
      by auto
    with 3 show "lit_prefix ic (p # ps) (c # cs) = Some s'"
      by auto
  qed
qed

lemma take_run_all:
  assumes "k \<le> run ic cs s"
  shows "list_all (cset_has ic cs) (take k s)"
proof -
  let ?t = "takeWhile (cset_has ic cs) s"
  have "take k (?t @ dropWhile (cset_has ic cs) s) =
      take k ?t @ take (k - length ?t) (dropWhile (cset_has ic cs) s)"
    by (rule take_append)
  with assms have "take k s = take k ?t"
    by (simp add: run_def)
  then have "set (take k s) \<subseteq> set ?t"
    by (simp add: set_take_subset)
  then show ?thesis
    by (auto simp: list_all_iff dest: set_takeWhileD)
qed

lemma run_append_all:
  assumes "list_all (cset_has ic cs) u"
  shows "length u \<le> run ic cs (u @ rest)"
proof -
  from assms have "takeWhile (cset_has ic cs) (u @ rest) = u @ takeWhile (cset_has ic cs) rest"
    by (simp add: list_all_iff takeWhile_append2)
  then show ?thesis by (simp add: run_def)
qed

lemma advance_range_iff:
  "(\<exists>k. lo \<le> k \<and> k \<le> run ic cs s \<and> (j, s', c') = advance (i, s, c) k) \<longleftrightarrow>
   (c' = c \<and> (\<exists>u. s = u @ s' \<and> j = i + length u \<and> lo \<le> length u \<and> list_all (cset_has ic cs) u))"
proof
  assume "\<exists>k. lo \<le> k \<and> k \<le> run ic cs s \<and> (j, s', c') = advance (i, s, c) k"
  then obtain k where k: "lo \<le> k" "k \<le> run ic cs s" and e: "(j, s', c') = advance (i, s, c) k"
    by blast
  from k(2) run_le[of ic cs s] have kl: "k \<le> length s" by simp
  from e kl have "s = take k s @ s'" "j = i + length (take k s)" "c' = c"
    by (simp_all add: advance_def)
  moreover from kl k(1) have "lo \<le> length (take k s)" by simp
  moreover note take_run_all[OF k(2)]
  ultimately show "c' = c \<and> (\<exists>u. s = u @ s' \<and> j = i + length u \<and> lo \<le> length u \<and>
      list_all (cset_has ic cs) u)"
    by blast
next
  assume "c' = c \<and> (\<exists>u. s = u @ s' \<and> j = i + length u \<and> lo \<le> length u \<and>
      list_all (cset_has ic cs) u)"
  then obtain u where u: "c' = c" "s = u @ s'" "j = i + length u" "lo \<le> length u"
    "list_all (cset_has ic cs) u"
    by blast
  from run_append_all[OF u(5), of s'] u(2) have "length u \<le> run ic cs s" by simp
  moreover from u have "(j, s', c') = advance (i, s, c) (length u)"
    by (simp add: advance_def)
  ultimately show "\<exists>k. lo \<le> k \<and> k \<le> run ic cs s \<and> (j, s', c') = advance (i, s, c) k"
    using u(4) by blast
qed

lemma rmatch_quantifier:
  "(j, s', c') \<in> advance (i, s, c) ` {lo ..< Suc (run ic cs s)} \<longleftrightarrow>
   (c' = c \<and> (\<exists>u. s = u @ s' \<and> j = i + length u \<and> lo \<le> length u \<and> list_all (cset_has ic cs) u))"
proof -
  have "(j, s', c') \<in> advance (i, s, c) ` {lo ..< Suc (run ic cs s)} \<longleftrightarrow>
      (\<exists>k. lo \<le> k \<and> k \<le> run ic cs s \<and> (j, s', c') = advance (i, s, c) k)"
    by (auto simp: image_iff less_Suc_eq_le)
  then show ?thesis by (simp only: advance_range_iff)
qed

lemma rmatch_accepts:
  "(\<exists>c'. (j, s', c') \<in> set (rmatch ic r (i, s, c))) \<longleftrightarrow>
   (\<exists>u. s = u @ s' \<and> j = i + length u \<and> accepts ic r i u s')"
proof (induction r arbitrary: i s c j s')
  case Eps
  show ?case by auto
next
  case (Lit p)
  have "(\<exists>c'. (j, s', c') \<in> set (rmatch ic (Lit p) (i, s, c))) \<longleftrightarrow>
      (lit_prefix ic p s = Some s' \<and> j = i + length p)"
    by (auto split: option.splits)
  also have "\<dots> \<longleftrightarrow> (\<exists>u. s = u @ s' \<and> j = i + length u \<and> map (canon ic) u = map (canon ic) p)"
    unfolding lit_prefix_iff by (metis map_eq_imp_length_eq)
  finally show ?case by simp
next
  case (Set cs)
  show ?case by (cases s) (auto split: if_splits)
next
  case Bol
  show ?case by auto
next
  case Eol
  show ?case by auto
next
  case (Seq a b)
  have "(\<exists>c'. (j, s', c') \<in> set (rmatch ic (Seq a b) (i, s, c))) \<longleftrightarrow>
      (\<exists>m sm. (\<exists>cm. (m, sm, cm) \<in> set (rmatch ic a (i, s, c)) \<and>
         (\<exists>c'. (j, s', c') \<in> set (rmatch ic b (m, sm, cm)))))"
    by auto
  also have "\<dots> \<longleftrightarrow> (\<exists>m sm. (\<exists>cm. (m, sm, cm) \<in> set (rmatch ic a (i, s, c))) \<and>
         (\<exists>w. sm = w @ s' \<and> j = m + length w \<and> accepts ic b m w s'))"
    unfolding Seq.IH(2) by blast
  also have "\<dots> \<longleftrightarrow> (\<exists>m sm. (\<exists>v. s = v @ sm \<and> m = i + length v \<and> accepts ic a i v sm) \<and>
         (\<exists>w. sm = w @ s' \<and> j = m + length w \<and> accepts ic b m w s'))"
    unfolding Seq.IH(1) by blast
  also have "\<dots> \<longleftrightarrow> (\<exists>v w. s = v @ w @ s' \<and> j = i + length v + length w \<and>
         accepts ic a i v (w @ s') \<and> accepts ic b (i + length v) w s')"
    by blast
  also have "\<dots> \<longleftrightarrow> (\<exists>u. s = u @ s' \<and> j = i + length u \<and> accepts ic (Seq a b) i u s')"
  proof
    assume "\<exists>v w. s = v @ w @ s' \<and> j = i + length v + length w \<and>
         accepts ic a i v (w @ s') \<and> accepts ic b (i + length v) w s'"
    then obtain v w where "s = v @ w @ s'" "j = i + length v + length w"
      "accepts ic a i v (w @ s')" "accepts ic b (i + length v) w s'"
      by blast
    then have "s = (v @ w) @ s' \<and> j = i + length (v @ w) \<and> accepts ic (Seq a b) i (v @ w) s'"
      by auto
    then show "\<exists>u. s = u @ s' \<and> j = i + length u \<and> accepts ic (Seq a b) i u s'"
      by blast
  next
    assume "\<exists>u. s = u @ s' \<and> j = i + length u \<and> accepts ic (Seq a b) i u s'"
    then obtain u v w where "s = u @ s'" "j = i + length u" "u = v @ w"
      "accepts ic a i v (w @ s')" "accepts ic b (i + length v) w s'"
      by auto
    then have "s = v @ w @ s' \<and> j = i + length v + length w \<and>
         accepts ic a i v (w @ s') \<and> accepts ic b (i + length v) w s'"
      by simp
    then show "\<exists>v w. s = v @ w @ s' \<and> j = i + length v + length w \<and>
         accepts ic a i v (w @ s') \<and> accepts ic b (i + length v) w s'"
      by blast
  qed
  finally show ?case .
next
  case (Alt a b)
  have "(\<exists>c'. (j, s', c') \<in> set (rmatch ic (Alt a b) (i, s, c))) \<longleftrightarrow>
      (\<exists>c'. (j, s', c') \<in> set (rmatch ic a (i, s, c))) \<or>
      (\<exists>c'. (j, s', c') \<in> set (rmatch ic b (i, s, c)))"
    by auto
  then show ?case unfolding Alt.IH by auto
next
  case (Opt a)
  have "(\<exists>c'. (j, s', c') \<in> set (rmatch ic (Opt a) (i, s, c))) \<longleftrightarrow>
      ((\<exists>c'. (j, s', c') \<in> set (rmatch ic a (i, s, c))) \<and> j \<noteq> i) \<or> (j = i \<and> s' = s)"
    by auto
  then show ?case unfolding Opt.IH by auto
next
  case (Star cs)
  have "set (rmatch ic (Star cs) (i, s, c)) = advance (i, s, c) ` {0 ..< Suc (run ic cs s)}"
    by (simp only: rmatch.simps set_map set_rev set_upt fst_conv snd_conv)
  then show ?case
    by (simp only: rmatch_quantifier accepts.simps) auto
next
  case (Plus cs)
  have "set (rmatch ic (Plus cs) (i, s, c)) = advance (i, s, c) ` {1 ..< Suc (run ic cs s)}"
    by (simp only: rmatch.simps set_map set_rev set_upt fst_conv snd_conv)
  then show ?case
    by (simp only: rmatch_quantifier accepts.simps) (auto simp: Suc_le_eq)
next
  case (LazyPlus cs)
  have "set (rmatch ic (LazyPlus cs) (i, s, c)) = advance (i, s, c) ` {1 ..< Suc (run ic cs s)}"
    by (simp only: rmatch.simps set_map set_rev set_upt fst_conv snd_conv)
  then show ?case
    by (simp only: rmatch_quantifier accepts.simps) (auto simp: Suc_le_eq)
next
  case (Group n a)
  have "(\<exists>c'. (j, s', c') \<in> set (rmatch ic (Group n a) (i, s, c))) \<longleftrightarrow>
      (\<exists>c'. (j, s', c') \<in> set (rmatch ic a (i, s, c)))"
    by force
  then show ?case unfolding Group.IH by simp
qed

lemma rmatch_nonempty_iff:
  "rmatch ic r (i, s, c) \<noteq> [] \<longleftrightarrow> (\<exists>u s'. s = u @ s' \<and> accepts ic r i u s')"
proof -
  have "rmatch ic r (i, s, c) \<noteq> [] \<longleftrightarrow> (\<exists>j s' c'. (j, s', c') \<in> set (rmatch ic r (i, s, c)))"
    by (cases "rmatch ic r (i, s, c)") (auto intro: prod_cases3)
  also have "\<dots> \<longleftrightarrow> (\<exists>j s'. \<exists>u. s = u @ s' \<and> j = i + length u \<and> accepts ic r i u s')"
    unfolding rmatch_accepts ..
  finally show ?thesis by blast
qed

lemma re_search_None_iff:
  "re_search ic r i s = None \<longleftrightarrow> (\<forall>k\<le>length s. rmatch ic r (i + k, drop k s, Map.empty) = [])"
proof (induction ic r i s rule: re_search.induct)
  case (1 ic r i)
  show ?case by (auto split: list.splits)
next
  case (2 ic r i x s)
  have "(\<forall>k\<le>length (x # s). rmatch ic r (i + k, drop k (x # s), Map.empty) = []) \<longleftrightarrow>
      rmatch ic r (i, x # s, Map.empty) = [] \<and>
      (\<forall>k\<le>length s. rmatch ic r (Suc i + k, drop k s, Map.empty) = [])"
    (is "?L \<longleftrightarrow> ?A \<and> ?B")
  proof
    assume l: ?L
    from l[rule_format, of 0] have ?A by simp
    moreover have ?B
    proof (intro allI impI)
      fix k assume "k \<le> length s"
      with l[rule_format, of "Suc k"] show "rmatch ic r (Suc i + k, drop k s, Map.empty) = []"
        by simp
    qed
    ultimately show "?A \<and> ?B" ..
  next
    assume ab: "?A \<and> ?B"
    show ?L
    proof (intro allI impI)
      fix k assume k: "k \<le> length (x # s)"
      show "rmatch ic r (i + k, drop k (x # s), Map.empty) = []"
      proof (cases k)
        case 0
        with ab show ?thesis by simp
      next
        case (Suc k')
        with k ab show ?thesis by simp
      qed
    qed
  qed
  with 2 show ?case
    by (cases "rmatch ic r (i, x # s, Map.empty)") auto
qed

lemma re_test_iff:
  "re_test ic r s \<longleftrightarrow> (\<exists>k\<le>length s. \<exists>u s'. drop k s = u @ s' \<and> accepts ic r k u s')"
  unfolding re_test_def re_search_None_iff
  by (simp add: rmatch_nonempty_iff)

lemma suffix_iff_drop: "suffix p s \<longleftrightarrow> (\<exists>k\<le>length s. drop k s = p)"
proof
  assume "suffix p s"
  then obtain zs where "s = zs @ p" by (auto simp: suffix_def)
  then have "length zs \<le> length s \<and> drop (length zs) s = p" by simp
  then show "\<exists>k\<le>length s. drop k s = p" by blast
next
  assume "\<exists>k\<le>length s. drop k s = p"
  then show "suffix p s" by (auto simp: suffix_drop)
qed

lemma canon_False [simp]: "canon False c = c"
  by (simp add: canon_def)

lemma map_canon_False [simp]: "map (canon False) u = u"
  by (induction u) simp_all

lemma accepts_dropRegex:
  "(\<exists>u s'. t = u @ s' \<and> accepts False dropRegex k u s') \<longleftrightarrow>
     t = ''.js'' \<or> t = ''.css'' \<or> t = ''.html''"
  by (auto simp: dropRegex_def)

lemma re_test_dropRegex:
  "re_test False dropRegex n \<longleftrightarrow> suffix ''.js'' n \<or> suffix ''.css'' n \<or> suffix ''.html'' n"
  unfolding re_test_iff accepts_dropRegex suffix_iff_drop by blast

section \<open>Files added to the page\<close>

lemma newUnique_subset:
  "set (fst (newUnique fs uploaded acc)) \<subseteq> set acc \<union> set fs"
proof (induction fs arbitrary: uploaded acc)
  case Nil
  show ?case by simp
next
  case (Cons f fs)
  show ?case
  proof (cases "fileKey_of f \<notin> set uploaded")
    case True
    with Cons.IH[of "set_add (fileKey_of f) uploaded" "acc @ [f]"] show ?thesis
      by auto
  next
    case False
    with Cons.IH[of uploaded acc] show ?thesis
      by auto
  qed
qed

lemma updatePreview_subset:
  "set (collectedFiles (updatePreview newFiles st)) \<subseteq> set (collectedFiles st) \<union> set newFiles"
  using newUnique_subset[of newFiles "uploadedFileSet st" "[]"]
  by (auto simp: updatePreview_def split: prod.splits)

lemma updatePreview_nothing [simp]: "updatePreview [] st = st"
  by (simp add: updatePreview_def)

lemma drop_examples:
  "\<not> suffix ''.js'' ''STYLE.CSS''"
  "\<not> suffix ''.css'' ''STYLE.CSS''"
  "\<not> suffix ''.html'' ''STYLE.CSS''"
  "suffix ''.js'' (file_name small_a)"
  "collectedFiles (onDrop [upper_css, small_a] initialState) = [small_a]"
  by code_simp+

section \<open>The drop filter\<close>

text \<open>
  C10. The filter of the drop listener is case-sensitive and anchored at the end: it
  lets a file through exactly when the name ends in \<open>.js\<close>, \<open>.css\<close> or \<open>.html\<close> in lower
  case. So a drop adds to \<open>collectedFiles\<close> only dropped files of such a name, and a drop
  of a file named \<open>STYLE.CSS\<close> leaves the page state as it was.
\<close>

theorem drop_filter_lower_case_suffix:
  "(re_test False dropRegex n \<longleftrightarrow> suffix ''.js'' n \<or> suffix ''.css'' n \<or> suffix ''.html'' n) \<and>
   (\<forall>f\<in>set (collectedFiles (onDrop files st)).
      f \<in> set (collectedFiles st) \<or>
      f \<in> set files \<and>
        (suffix ''.js'' (file_name f) \<or> suffix ''.css'' (file_name f) \<or>
         suffix ''.html'' (file_name f))) \<and>
   (file_name g = ''STYLE.CSS'' \<longrightarrow> onDrop [g] st = st)"
proof (intro conjI ballI impI)
  show "re_test False dropRegex n \<longleftrightarrow> suffix ''.js'' n \<or> suffix ''.css'' n \<or> suffix ''.html'' n"
    by (rule re_test_dropRegex)
next
  fix f
  assume "f \<in> set (collectedFiles (onDrop files st))"
  with updatePreview_subset[of "filter (\<lambda>f. re_test False dropRegex (file_name f)) files" st]
  have "f \<in> set (collectedFiles st) \<or>
      f \<in> set files \<and> re_test False dropRegex (file_name f)"
    by (auto simp: onDrop_def)
  then show "f \<in> set (collectedFiles st) \<or>
      f \<in> set files \<and>
        (suffix ''.js'' (file_name f) \<or> suffix ''.css'' (file_name f) \<or>
         suffix ''.html'' (file_name f))"
    by (simp add: re_test_dropRegex)
next
  assume "file_name g = ''STYLE.CSS''"
  then have "\<not> re_test False dropRegex (file_name g)"
    by (simp add: re_test_dropRegex drop_examples)
  then show "onDrop [g] st = st"
    by (simp add: onDrop_def)
qed

theorem drop_filter_lower_case_suffix_witness:
  "small_a \<in> set (collectedFiles (onDrop [upper_css, small_a] initialState)) \<and>
   small_a \<in> set [upper_css, small_a] \<and> suffix ''.js'' (file_name small_a) \<and>
   \<not> re_test False dropRegex ''STYLE.CSS'' \<and>
   file_name upper_css = ''STYLE.CSS'' \<and> onDrop [upper_css] initialState = initialState"
proof -
  have n: "file_name upper_css = ''STYLE.CSS''"
    by (simp add: upper_css_def)
  have m: "small_a \<in> set (collectedFiles (onDrop [upper_css, small_a] initialState))"
    by (simp add: drop_examples)
  from n m drop_filter_lower_case_suffix[of "''STYLE.CSS''" "[upper_css, small_a]" initialState upper_css]
  show ?thesis
    by (simp add: drop_examples)
qed

section \<open>Where an extracted URL comes from\<close>

lemma processMatch_members:
  "u \<in> set (processMatch include assets rawUrl c) \<Longrightarrow>
     u \<in> set (assets c) \<or> u = normalizeProtocol rawUrl"
  by (auto simp: processMatch_def Let_def set_add_def split: if_splits)

lemma forEachMatch_members:
  "u \<in> set (forEachMatch include ms assets c) \<Longrightarrow>
     u \<in> set (assets c) \<or>
     (\<exists>m\<in>set ms. \<exists>rawUrl. m 1 = Some rawUrl \<and> u = normalizeProtocol rawUrl)"
proof (induction ms arbitrary: assets)
  case Nil
  then show ?case by simp
next
  case (Cons m ms)
  show ?case
  proof (cases "m 1")
    case None
    with Cons.prems show ?thesis by simp
  next
    case (Some rawUrl)
    with Cons.prems have "u \<in> set (forEachMatch include ms (processMatch include assets rawUrl) c)"
      by simp
    from Cons.IH[OF this] show ?thesis
    proof
      assume "u \<in> set (processMatch include assets rawUrl c)"
      from processMatch_members[OF this] Some show ?thesis by auto
    next
      assume "\<exists>m\<in>set ms. \<exists>rawUrl. m 1 = Some rawUrl \<and> u = normalizeProtocol rawUrl"
      then show ?thesis by auto
    qed
  qed
qed

lemma extractLoop_members:
  "u \<in> set (extractLoop fs include assets c) \<Longrightarrow>
     u \<in> set (assets c) \<or>
     (\<exists>f\<in>set fs. \<exists>t. file_text f = Some t \<and>
        (\<exists>m\<in>set (matchAll True urlRegex 0 t). \<exists>rawUrl. m 1 = Some rawUrl \<and>
           u = normalizeProtocol rawUrl))"
proof (induction fs arbitrary: assets)
  case Nil
  then show ?case by simp
next
  case (Cons f fs)
  show ?case
  proof (cases "file_text f")
    case None
    with Cons.prems have "u \<in> set (extractLoop fs include assets c)" by simp
    from Cons.IH[OF this] show ?thesis by auto
  next
    case (Some t)
    with Cons.prems have
      "u \<in> set (extractLoop fs include (forEachMatch include (matchAll True urlRegex 0 t) assets) c)"
      by simp
    from Cons.IH[OF this] show ?thesis
    proof
      assume "u \<in> set (forEachMatch include (matchAll True urlRegex 0 t) assets c)"
      from forEachMatch_members[OF this] Some show ?thesis by auto
    next
      assume "\<exists>f\<in>set fs. \<exists>t. file_text f = Some t \<and>
        (\<exists>m\<in>set (matchAll True urlRegex 0 t). \<exists>rawUrl. m 1 = Some rawUrl \<and>
           u = normalizeProtocol rawUrl)"
      then show ?thesis by auto
    qed
  qed
qed

lemma extract_members:
  "u \<in> set (extractAssetsFromFiles files include c) \<Longrightarrow>
     \<exists>f\<in>set files. \<exists>t. file_text f = Some t \<and>
        (\<exists>m\<in>set (matchAll True urlRegex 0 t). \<exists>rawUrl. m 1 = Some rawUrl \<and>
           u = normalizeProtocol rawUrl)"
  using extractLoop_members[of u files "include" "\<lambda>_. []" c]
  by (simp add: extractAssetsFromFiles_def)

lemma normalizeProtocol_no_slashes: "\<not> prefix ''//'' (normalizeProtocol rawUrl)"
  by (simp add: normalizeProtocol_def)

lemma imgTag_matches:
  "map (\<lambda>m. m 1) (matchAll True urlRegex 0 imgTagText) = [Some ''//cdn.example.com/a/b.png'']"
  by code_simp

lemma imgTag_class:
  "normalizeProtocol ''//cdn.example.com/a/b.png'' = ''https://cdn.example.com/a/b.png''"
  "\<not> suffix ''.js'' ''https://cdn.example.com/a/b.png''"
  "\<not> sublist ''.js?'' ''https://cdn.example.com/a/b.png''"
  "\<not> suffix ''.css'' ''https://cdn.example.com/a/b.png''"
  "\<not> sublist ''.css?'' ''https://cdn.example.com/a/b.png''"
  "re_test True imageRegex ''https://cdn.example.com/a/b.png''"
  by code_simp+

lemma imgTag_extract:
  assumes "include Images"
  shows "extractAssetsFromFiles [imgTagFile] include Images = [''https://cdn.example.com/a/b.png'']"
proof -
  from imgTag_matches obtain m where
    m: "matchAll True urlRegex 0 imgTagText = [m]" "m 1 = Some ''//cdn.example.com/a/b.png''"
    by (auto simp: map_eq_Cons_conv)
  from m(2) have m1: "m (Suc 0) = Some ''//cdn.example.com/a/b.png''"
    by simp
  have t: "file_text imgTagFile = Some imgTagText"
    by (simp add: imgTagFile_def)
  from assms show ?thesis
    by (simp add: extractAssetsFromFiles_def t m(1) m1 processMatch_def imgTag_class set_add_def)
qed

section \<open>Trimming and the characters of a name\<close>

lemma trimEnd_id: "s = [] \<or> \<not> is_space (last s) \<Longrightarrow> trimEnd s = s"
  by (cases s rule: rev_cases) (auto simp: trimEnd_def)

lemma trim_id: "\<forall>c\<in>set s. \<not> is_space c \<Longrightarrow> trim s = s"
proof -
  assume a: "\<forall>c\<in>set s. \<not> is_space c"
  then have "trimStart s = s"
    by (cases s) (auto simp: trimStart_def)
  moreover from a have "trimEnd s = s"
    by (intro trimEnd_id) (cases s rule: rev_cases, auto)
  ultimately show ?thesis by (simp add: trim_def)
qed

lemma name_char_iff:
  "cset_has False name_char c \<longleftrightarrow>
     in_range (CHR ''a'') (CHR ''z'') c \<or> in_range (CHR ''A'') (CHR ''Z'') c \<or>
     in_range (CHR ''0'') (CHR ''9'') c \<or> c = CHR ''-''"
  by (simp add: name_char_def)

lemma name_char_not_space: "cset_has False name_char c \<Longrightarrow> \<not> is_space c"
  unfolding name_char_iff
  by (auto simp: in_range_def is_space_def)

lemma strip_special_chars: "\<forall>c\<in>set (strip_special s). cset_has False name_char c"
  by (simp add: strip_special_def)

lemma accepts_nameRegex:
  "(\<exists>u s'. t = u @ s' \<and> accepts False nameRegex k u s') \<longleftrightarrow>
     k = 0 \<and> t \<noteq> [] \<and> list_all (cset_has False name_char) t"
  by (auto simp: nameRegex_def)

lemma re_test_nameRegex:
  "re_test False nameRegex s \<longleftrightarrow> s \<noteq> [] \<and> list_all (cset_has False name_char) s"
  unfolding re_test_iff accepts_nameRegex by auto

lemma replace_one_run:
  assumes "list_all (\<lambda>c. \<not> is_space c) u" and "w \<noteq> []" and "list_all is_space w"
    and "v = [] \<or> \<not> is_space (hd v)"
  shows "replace_space_runs (u @ w @ v) = u @ ''-'' @ replace_space_runs v"
  using assms(1)
proof (induction u)
  case Nil
  from assms(2) obtain x w' where w: "w = x # w'" by (cases w) auto
  with assms(3) have x: "is_space x" and w': "\<forall>c\<in>set w'. is_space c"
    by (auto simp: list_all_iff)
  from assms(4) have "dropWhile is_space v = v"
    by (cases v) auto
  with w' have "dropWhile is_space (w' @ v) = v"
    by (simp add: dropWhile_append2)
  with w x show ?case by simp
next
  case (Cons a u)
  then show ?case by simp
qed

lemma sanitize_examples:
  "strip_special (replace_space_runs (trim ''My Test #1'')) = ''My-Test-1''"
  "testNameInput (validateInputs (initialState\<lparr>testNameInput := '' a''\<rparr>)) = ''a''"
  "sanitize_as_stated '' a'' = ''-a''"
  "testNameInput myTestState = ''My Test #1''"
  by code_simp+

section \<open>The base name\<close>

text \<open>
  C7, as amended. The sanitization first trims the white space at both ends of the
  input; it then replaces every run of white space that is left with one hyphen and
  drops every character outside \<open>[a-zA-Z0-9-]\<close>. The result holds characters of the class
  only, the generate button is disabled exactly when it is empty, and the root folder
  of the archive is the result followed by \<open>-devpack\<close>. The input \<open>My Test #1\<close> gives
  \<open>My-Test-1\<close> and the folder \<open>My-Test-1-devpack\<close>.
\<close>

theorem base_name_sanitized:
  "testNameInput (validateInputs st) =
      strip_special (replace_space_runs (trim (testNameInput st))) \<and>
   (list_all (\<lambda>c. \<not> is_space c) u \<and> w \<noteq> [] \<and> list_all is_space w \<and>
      (v = [] \<or> \<not> is_space (hd v)) \<longrightarrow>
        replace_space_runs (u @ w @ v) = u @ ''-'' @ replace_space_runs v) \<and>
   (\<forall>c\<in>set (testNameInput (validateInputs st)). cset_has False name_char c) \<and>
   (generateBtn_disabled (validateInputs st) \<longleftrightarrow> testNameInput (validateInputs st) = []) \<and>
   folderName (validateInputs st) = testNameInput (validateInputs st) @ ''-devpack'' \<and>
   (testNameInput st = ''My Test #1'' \<longrightarrow>
      testNameInput (validateInputs st) = ''My-Test-1'' \<and>
      folderName (validateInputs st) = ''My-Test-1-devpack'')"
proof -
  let ?n = "strip_special (replace_space_runs (trim (testNameInput st)))"
  have n: "testNameInput (validateInputs st) = ?n"
    by (simp add: validateInputs_def Let_def)
  have chars: "\<forall>c\<in>set ?n. cset_has False name_char c"
    by (rule strip_special_chars)
  then have "trim ?n = ?n"
    by (intro trim_id) (auto dest: name_char_not_space)
  with n have f: "folderName (validateInputs st) = ?n @ ''-devpack''"
    by (simp add: folderName_def)
  from chars have d: "generateBtn_disabled (validateInputs st) \<longleftrightarrow> ?n = []"
    by (auto simp: validateInputs_def Let_def re_test_nameRegex list_all_iff)
  have e: "testNameInput st = ''My Test #1'' \<longrightarrow> ?n = ''My-Test-1''"
    by (auto simp: sanitize_examples)
  from n chars f d e replace_one_run[of u w v] show ?thesis
    by auto
qed

theorem base_name_sanitized_witness:
  "testNameInput myTestState = ''My Test #1'' \<and>
   testNameInput (validateInputs myTestState) = ''My-Test-1'' \<and>
   folderName (validateInputs myTestState) = ''My-Test-1-devpack'' \<and>
   \<not> generateBtn_disabled (validateInputs myTestState)"
  using base_name_sanitized[of myTestState "[]" "'' ''" "[]"]
  by (simp add: sanitize_examples)

text \<open>
  The claim as it stands gives a hyphen for a run of white space at an end of the input;
  the listener gives none.
\<close>

theorem base_name_leading_space_counterexample:
  "testNameInput (validateInputs (initialState\<lparr>testNameInput := '' a''\<rparr>)) = ''a'' \<and>
   sanitize_as_stated '' a'' = ''-a''"
  by (simp add: sanitize_examples)

section \<open>The naming loop and the maps of a batch\<close>

lemma uniqueLoop_fresh: "uniqueLoop tracker base i name \<notin> set tracker"
proof (induction tracker base i name rule: uniqueLoop.induct)
  case (1 tracker base i name)
  show ?case
  proof (cases "name \<in> set tracker")
    case True
    with 1 show ?thesis by (subst uniqueLoop.simps) simp
  next
    case False
    then show ?thesis by (subst uniqueLoop.simps) simp
  qed
qed

lemma uniqueLoop_unused: "name \<notin> set tracker \<Longrightarrow> uniqueLoop tracker base i name = name"
  by (subst uniqueLoop.simps) simp

lemma uniqueLoop_shape:
  "uniqueLoop tracker base i name = name \<and> name \<notin> set tracker \<or>
   name \<in> set tracker \<and>
     (\<exists>n\<ge>i. uniqueLoop tracker base i name = duplicate_name n base \<and>
        (\<forall>k. i \<le> k \<and> k < n \<longrightarrow> duplicate_name k base \<in> set tracker))"
proof (induction tracker base i name rule: uniqueLoop.induct)
  case (1 tracker base i name)
  show ?case
  proof (cases "name \<in> set tracker")
    case False
    then show ?thesis by (simp add: uniqueLoop_unused)
  next
    case True
    let ?r = "uniqueLoop tracker base (Suc i) (duplicate_name i base)"
    from True have r: "uniqueLoop tracker base i name = ?r"
      by (subst uniqueLoop.simps) simp
    from 1[OF True] consider
      (stop) "?r = duplicate_name i base" "duplicate_name i base \<notin> set tracker"
      | (go) n where "duplicate_name i base \<in> set tracker" "Suc i \<le> n" "?r = duplicate_name n base"
          "\<forall>k. Suc i \<le> k \<and> k < n \<longrightarrow> duplicate_name k base \<in> set tracker"
      by blast
    then show ?thesis
    proof cases
      case stop
      then have "i \<le> i \<and> ?r = duplicate_name i base \<and>
          (\<forall>k. i \<le> k \<and> k < i \<longrightarrow> duplicate_name k base \<in> set tracker)"
        by auto
      with True r show ?thesis by metis
    next
      case go
      have "\<forall>k. i \<le> k \<and> k < n \<longrightarrow> duplicate_name k base \<in> set tracker"
      proof (intro allI impI)
        fix k assume k: "i \<le> k \<and> k < n"
        show "duplicate_name k base \<in> set tracker"
        proof (cases "k = i")
          case True
          with go(1) show ?thesis by simp
        next
          case False
          with k have "Suc i \<le> k \<and> k < n" by simp
          with go(4) show ?thesis by blast
        qed
      qed
      moreover from go(2) have "i \<le> n" by simp
      ultimately show ?thesis using True r go(3) by metis
    qed
  qed
qed

lemma map_set_fresh: "k \<notin> fst ` set m \<Longrightarrow> map_set k v m = m @ [(k, v)]"
  by (induction m) auto

lemma fetchedNames_member: "e \<in> set (v t) \<Longrightarrow> fst e \<in> set (fetchedNames v)"
  by (cases t) (auto simp: fetchedNames_def)

lemma fetchedNames_append:
  "set (fetchedNames (v(t := v t @ [(n, b)]))) = insert n (set (fetchedNames v))"
  "length (fetchedNames (v(t := v t @ [(n, b)]))) = Suc (length (fetchedNames v))"
  "distinct (fetchedNames (v(t := v t @ [(n, b)]))) \<longleftrightarrow>
     distinct (fetchedNames v) \<and> n \<notin> set (fetchedNames v)"
  by (cases t; auto simp: fetchedNames_def)+

lemma generateUniqueName_fresh:
  assumes "generateUniqueName url tracker = (name, tracker')"
  shows "name \<notin> set tracker" and "tracker' = tracker @ [name]"
    and "name = uniqueLoop tracker (baseOfUrl url) 1 (baseOfUrl url)"
proof -
  from assms show n: "name = uniqueLoop tracker (baseOfUrl url) 1 (baseOfUrl url)"
    by (auto simp: generateUniqueName_def Let_def)
  then show f: "name \<notin> set tracker"
    using uniqueLoop_fresh[of tracker "baseOfUrl url" 1 "baseOfUrl url"] by simp
  from assms n have "tracker' = set_add name tracker"
    by (auto simp: generateUniqueName_def Let_def)
  with f show "tracker' = tracker @ [name]"
    by (simp add: set_add_def)
qed

lemma settle_success:
  assumes "failure_reason res = None"
    and "set (fetchedNames (valid st)) \<subseteq> set (assetNameTracker st)"
  shows "\<exists>name blob. name \<notin> set (assetNameTracker st) \<and>
      valid (settle st (p, res)) = (valid st)(fst p := valid st (fst p) @ [(name, blob)]) \<and>
      assetNameTracker (settle st (p, res)) = assetNameTracker st @ [name]"
proof -
  from assms(1) obtain status blob where res: "res = Response status (Inr blob)" "ok status"
    by (auto simp: failure_reason_def split: response.splits sum.splits if_splits)
  obtain name tracker' where g: "generateUniqueName (snd p) (assetNameTracker st) = (name, tracker')"
    by (cases "generateUniqueName (snd p) (assetNameTracker st)")
  note f = generateUniqueName_fresh(1)[OF g] and t = generateUniqueName_fresh(2)[OF g]
  from f assms(2) have "name \<notin> fst ` set (valid st (fst p))"
    using fetchedNames_member[of _ "valid st" "fst p"] by auto
  then have "map_set name blob (valid st (fst p)) = valid st (fst p) @ [(name, blob)]"
    by (rule map_set_fresh)
  with res g f t show ?thesis
    by (auto simp: settle_def)
qed

lemma settle_names:
  assumes "distinct (fetchedNames (valid st))"
    and "set (fetchedNames (valid st)) \<subseteq> set (assetNameTracker st)"
  shows "distinct (fetchedNames (valid (settle st pr))) \<and>
     set (fetchedNames (valid (settle st pr))) \<subseteq> set (assetNameTracker (settle st pr)) \<and>
     length (fetchedNames (valid (settle st pr))) =
       length (fetchedNames (valid st)) + (if successful pr then 1 else 0)"
proof (cases "failure_reason (snd pr)")
  case None
  from settle_success[OF None assms(2), of "fst pr"] obtain name blob where
    "name \<notin> set (assetNameTracker st)"
    "valid (settle st pr) = (valid st)(fst (fst pr) := valid st (fst (fst pr)) @ [(name, blob)])"
    "assetNameTracker (settle st pr) = assetNameTracker st @ [name]"
    by auto
  with assms None show ?thesis
    by (auto simp: fetchedNames_append successful_def)
next
  case (Some m)
  then have "settle st pr = reject (fst pr) m st"
    using settle_failure[of "snd pr" m st "fst pr"] by simp
  with assms Some show ?thesis
    by (simp add: successful_def)
qed

lemma foldl_settle_names:
  assumes "distinct (fetchedNames (valid st))"
    and "set (fetchedNames (valid st)) \<subseteq> set (assetNameTracker st)"
  shows "distinct (fetchedNames (valid (foldl settle st prs))) \<and>
     length (fetchedNames (valid (foldl settle st prs))) =
       length (fetchedNames (valid st)) + length (filter successful prs)"
  using assms
proof (induction prs arbitrary: st)
  case Nil
  then show ?case by simp
next
  case (Cons pr prs)
  from settle_names[OF Cons.prems, of pr] Cons.IH[of "settle st pr"]
  show ?case by auto
qed

lemma issueUrls_keeps:
  "valid (fst (issueUrls t urls acc)) = valid (fst acc) \<and>
   assetNameTracker (fst (issueUrls t urls acc)) = assetNameTracker (fst acc)"
proof (induction urls arbitrary: acc)
  case Nil
  show ?case by simp
next
  case (Cons rawUrl urls)
  obtain st fs where acc: "acc = (st, fs)" by (cases acc)
  show ?case
    unfolding acc by (simp add: Let_def Cons.IH)
qed

lemma issueAll_keeps:
  "valid (fst (issueAll assets)) = (\<lambda>_. [])"
  "assetNameTracker (fst (issueAll assets)) = []"
  by (simp_all add: issueAll_def issueUrls_keeps emptyState_def)

lemma valid_validateAndFetchAssets:
  "valid (validateAndFetchAssets env assets) =
     valid (foldl settle (fst (issueAll assets)) (env (snd (issueAll assets))))"
  by (simp add: validateAndFetchAssets_def settleAll_def result.defs case_prod_beta)

lemma twoIcons_example:
  "length (filter successful (envOk (snd (issueAll twoIcons)))) = 2"
  "generateUniqueName ''https://a.com/fonts/icon.svg'' [''icon.svg''] =
     (''duplicate-1-icon.svg'', [''icon.svg'', ''duplicate-1-icon.svg''])"
  "baseOfUrl ''https://a.com/fonts/icon.svg'' = ''icon.svg''"
  by code_simp+

section \<open>Names of a fetch batch\<close>

text \<open>
  C3. Whatever the order in which the fetches of a batch settle, the names in the four
  maps of \<open>valid\<close> are as many as the fetches that succeeded and no two of them are
  equal, also across categories: one tracker serves them all. A name is the base name
  of the URL when the tracker has not got it; otherwise it is \<open>duplicate-<n>-\<close> and the
  base name for the least \<open>n\<close> from 1 on whose name the tracker has not got. The name
  joins the tracker.
\<close>

theorem fetch_names_unique:
  "distinct (fetchedNames (valid (validateAndFetchAssets env assets))) \<and>
   length (fetchedNames (valid (validateAndFetchAssets env assets))) =
     length (filter successful (env (snd (issueAll assets)))) \<and>
   (generateUniqueName url tracker = (name, tracker') \<longrightarrow>
      name \<notin> set tracker \<and> tracker' = tracker @ [name] \<and>
      (name = baseOfUrl url \<and> baseOfUrl url \<notin> set tracker \<or>
       baseOfUrl url \<in> set tracker \<and>
         (\<exists>n\<ge>1. name = duplicate_name n (baseOfUrl url) \<and>
            (\<forall>k. 1 \<le> k \<and> k < n \<longrightarrow> duplicate_name k (baseOfUrl url) \<in> set tracker))))"
proof (intro conjI impI)
  let ?st = "fst (issueAll assets)"
  have "distinct (fetchedNames (valid ?st))" "set (fetchedNames (valid ?st)) \<subseteq> set (assetNameTracker ?st)"
    by (simp_all add: issueAll_keeps fetchedNames_def)
  from foldl_settle_names[OF this, of "env (snd (issueAll assets))"]
  show "distinct (fetchedNames (valid (validateAndFetchAssets env assets)))"
    and "length (fetchedNames (valid (validateAndFetchAssets env assets))) =
     length (filter successful (env (snd (issueAll assets))))"
    by (simp_all add: valid_validateAndFetchAssets issueAll_keeps fetchedNames_def)
next
  assume g: "generateUniqueName url tracker = (name, tracker')"
  show "name \<notin> set tracker"
    by (rule generateUniqueName_fresh(1)[OF g])
  show "tracker' = tracker @ [name]"
    by (rule generateUniqueName_fresh(2)[OF g])
  note n = generateUniqueName_fresh(3)[OF g]
  from uniqueLoop_shape[of tracker "baseOfUrl url" 1 "baseOfUrl url"]
  show "name = baseOfUrl url \<and> baseOfUrl url \<notin> set tracker \<or>
       baseOfUrl url \<in> set tracker \<and>
         (\<exists>n\<ge>1. name = duplicate_name n (baseOfUrl url) \<and>
            (\<forall>k. 1 \<le> k \<and> k < n \<longrightarrow> duplicate_name k (baseOfUrl url) \<in> set tracker))"
    unfolding n by simp
qed

theorem fetch_names_unique_witness:
  "generateUniqueName ''https://a.com/fonts/icon.svg'' [''icon.svg''] =
     (''duplicate-1-icon.svg'', [''icon.svg'', ''duplicate-1-icon.svg'']) \<and>
   ''duplicate-1-icon.svg'' \<notin> set [''icon.svg''] \<and>
   distinct (fetchedNames (valid (validateAndFetchAssets envOk twoIcons))) \<and>
   length (fetchedNames (valid (validateAndFetchAssets envOk twoIcons))) = 2"
  using fetch_names_unique[of envOk twoIcons "''https://a.com/fonts/icon.svg''" "[''icon.svg'']"
      "''duplicate-1-icon.svg''" "[''icon.svg'', ''duplicate-1-icon.svg'']"]
  by (simp add: twoIcons_example)

section \<open>The first group of the URL pattern\<close>

lemma rmatch_group_free:
  "group_free r \<Longrightarrow> (j, s', c') \<in> set (rmatch ic r (i, s, c)) \<Longrightarrow> c' = c"
proof (induction r arbitrary: i s c j s' c')
  case (Lit p)
  then show ?case by (auto split: option.splits)
next
  case (Set cs)
  then show ?case by (cases s) (auto split: if_splits)
next
  case (Seq a b)
  from Seq.prems obtain m sm cm where
    m: "(m, sm, cm) \<in> set (rmatch ic a (i, s, c))"
    and e: "(j, s', c') \<in> set (rmatch ic b (m, sm, cm))"
    by auto
  from Seq.prems(1) Seq.IH(1)[OF _ m] Seq.IH(2)[OF _ e] show ?case by simp
next
  case (Alt a b)
  then show ?case by auto
next
  case (Opt a)
  then show ?case by auto
next
  case (Star cs)
  then show ?case by (auto simp: advance_def)
next
  case (Plus cs)
  then show ?case by (auto simp: advance_def)
next
  case (LazyPlus cs)
  then show ?case by (auto simp: advance_def)
next
  case (Group n a)
  then show ?case by simp
qed (auto split: if_splits)

lemma rmatch_Group_capture:
  assumes "(j, s', c') \<in> set (rmatch ic (Group n a) (i, s, c))"
  shows "\<exists>u. c' n = Some u \<and> accepts ic a i u s'"
proof -
  from assms obtain c0 where c0: "(j, s', c0) \<in> set (rmatch ic a (i, s, c))"
    and c': "c' = c0(n \<mapsto> take (j - i) s)"
    by auto
  from c0 have "\<exists>c'. (j, s', c') \<in> set (rmatch ic a (i, s, c))" by blast
  then obtain u where u: "s = u @ s'" "j = i + length u" "accepts ic a i u s'"
    unfolding rmatch_accepts by blast
  from u(1,2) have "take (j - i) s = u" by simp
  with c' u(3) show ?thesis by simp
qed

lemma rmatch_Seq_mem:
  "x \<in> set (rmatch ic (Seq a b) st) \<longleftrightarrow> (\<exists>st1\<in>set (rmatch ic a st). x \<in> set (rmatch ic b st1))"
  by auto

lemma urlRegex_capture:
  assumes "(j, s', c') \<in> set (rmatch True urlRegex (i, s, c))"
  shows "\<exists>u k rest. c' 1 = Some u \<and> accepts True urlBody k u rest"
proof -
  from assms obtain st1 st2 where
    "st2 \<in> set (rmatch True (Group 1 urlBody) st1)"
    and e: "(j, s', c') \<in> set (rmatch True urlClose st2)"
    unfolding urlRegex_def seqs.simps rmatch_Seq_mem by blast
  moreover obtain i1 s1 c1 where "st1 = (i1, s1, c1)" by (cases st1)
  moreover obtain i2 s2 c2 where st2: "st2 = (i2, s2, c2)" by (cases st2)
  ultimately have g: "(i2, s2, c2) \<in> set (rmatch True (Group 1 urlBody) (i1, s1, c1))"
    by simp
  have "group_free urlClose"
    by (simp add: urlClose_def)
  from rmatch_group_free[OF this e[unfolded st2]] have "c' = c2" .
  with rmatch_Group_capture[OF g] show ?thesis by blast
qed

lemma re_search_Some:
  "re_search ic r i s = Some (k, st) \<Longrightarrow> \<exists>s0. st \<in> set (rmatch ic r (k, s0, Map.empty))"
proof (induction ic r i s rule: re_search.induct)
  case (1 ic r i)
  then have "st \<in> set (rmatch ic r (k, [], Map.empty))"
    by (cases "rmatch ic r (i, [], Map.empty)") auto
  then show ?case by blast
next
  case (2 ic r i x s)
  show ?case
  proof (cases "rmatch ic r (i, x # s, Map.empty)")
    case Nil
    with 2 show ?thesis by simp
  next
    case (Cons st' sts)
    with "2.prems" have "st \<in> set (rmatch ic r (k, x # s, Map.empty))"
      by auto
    then show ?thesis by blast
  qed
qed

lemma matchAll_members:
  "m \<in> set (matchAll ic r i s) \<Longrightarrow>
     \<exists>c v k s0 j s'. m = c(0 \<mapsto> v) \<and> (j, s', c) \<in> set (rmatch ic r (k, s0, Map.empty))"
proof (induction ic r i s rule: matchAll.induct)
  case (1 ic r i s)
  show ?case
  proof (cases "re_search ic r i s")
    case None
    with "1.prems" show ?thesis
      by (subst (asm) matchAll.simps) simp
  next
    case (Some found)
    obtain k j s' c where found: "found = (k, j, s', c)"
      by (cases found) auto
    from re_search_Some[OF Some[unfolded found]] obtain s0 where
      here: "(j, s', c) \<in> set (rmatch ic r (k, s0, Map.empty))"
      by blast
    from "1.prems" Some found consider
      (first) "m = c(0 \<mapsto> take (j - k) (drop (k - i) s))"
      | (empty) x s'' where "j = k" "s' = x # s''" "m \<in> set (matchAll ic r (Suc j) s'')"
      | (later) "j \<noteq> k" "m \<in> set (matchAll ic r j s')"
      by (subst (asm) matchAll.simps) (auto split: list.splits if_splits)
    then show ?thesis
    proof cases
      case first
      with here show ?thesis by blast
    next
      case empty
      with "1.IH"(1)[OF Some found[symmetric] refl refl empty(1,2)] show ?thesis
        by simp
    next
      case later
      with "1.IH"(2)[OF Some found[symmetric] refl refl later(1)] show ?thesis
        by simp
    qed
  qed
qed

lemma url_match_capture:
  assumes "m \<in> set (matchAll True urlRegex 0 t)"
  shows "\<exists>u k rest. m 1 = Some u \<and> accepts True urlBody k u rest"
proof -
  from matchAll_members[OF assms] obtain c v k s0 j s' where
    m: "m = c(0 \<mapsto> v)" and r: "(j, s', c) \<in> set (rmatch True urlRegex (k, s0, Map.empty))"
    by blast
  from urlRegex_capture[OF r] m show ?thesis by simp
qed

lemma canon_space: "is_space x \<Longrightarrow> canon True x = x"
  by (auto simp: canon_def ascii_upper_def is_space_def)

lemma canon_literals:
  "canon True (CHR ''/'') = CHR ''/''"
  "canon True (CHR ''h'') = CHR ''H''"
  "\<not> is_space (CHR ''/'')"
  "\<not> is_space (CHR ''H'')"
  "map (canon True) ''http://'' \<noteq> take 7 (map (canon True) ''https://'')"
  "map (canon True) (take 7 ''https://'') \<noteq> map (canon True) ''http://''"
  by code_simp+

lemma canon_is_slash:
  assumes "canon True x = CHR ''/''"
  shows "x = CHR ''/''"
proof (cases "97 \<le> (of_char x :: nat) \<and> (of_char x :: nat) \<le> 122")
  case True
  with assms have "char_of ((of_char x :: nat) - 32) = CHR ''/''"
    by (simp add: canon_def ascii_upper_def)
  then have "(of_char (char_of ((of_char x :: nat) - 32) :: char) :: nat) = of_char (CHR ''/'')"
    by simp
  then have "((of_char x :: nat) - 32) mod 256 = 47"
    by simp
  moreover have "((of_char x :: nat) - 32) mod 256 = (of_char x :: nat) - 32"
  proof (rule mod_less)
    from True show "(of_char x :: nat) - 32 < 256" by arith
  qed
  ultimately have "(of_char x :: nat) - 32 = 47" by simp
  with True show ?thesis by arith
next
  case False
  with assms show ?thesis by (simp add: canon_def ascii_upper_def)
qed

lemma two_slashes:
  assumes "map (canon True) v = map (canon True) ''//''"
  shows "v = ''//''"
proof -
  from assms obtain a b where v: "v = [a, b]"
    by (auto simp: map_eq_Cons_conv)
  with assms have "canon True a = CHR ''/''" "canon True b = CHR ''/''"
    by (simp_all add: canon_literals)
  with v show ?thesis by (simp add: canon_is_slash)
qed

lemma accepts_urlScheme:
  "accepts True urlScheme k v rest \<Longrightarrow>
     v = [] \<or> map (canon True) v = map (canon True) ''http:'' \<or>
     map (canon True) v = map (canon True) ''https:''"
  by (auto simp: urlScheme_def)

lemma accepts_urlBody:
  assumes "accepts True urlBody k u rest"
  shows "\<exists>h t. u = h @ ''//'' @ t \<and>
     (h = [] \<or> map (canon True) h = map (canon True) ''http:'' \<or>
      map (canon True) h = map (canon True) ''https:'')"
proof -
  from assms have "accepts True (Seq urlScheme (Seq (Lit ''//'') urlRest)) k u rest"
    by (simp only: urlBody_def seqs.simps)
  then obtain h w where u1: "u = h @ w"
    and h: "accepts True urlScheme k h (w @ rest)"
    and w: "accepts True (Seq (Lit ''//'') urlRest) (k + length h) w rest"
    by (auto simp only: accepts.simps(6))
  from w obtain v t where u2: "w = v @ t"
    and "accepts True (Lit ''//'') (k + length h) v (t @ rest)"
    by (auto simp only: accepts.simps(6))
  then have v: "map (canon True) v = map (canon True) ''//''"
    by (simp only: accepts.simps(2))
  note u = u1 u2
  from two_slashes[OF v] u have "u = h @ ''//'' @ t" by simp
  with accepts_urlScheme[OF h] show ?thesis by blast
qed

lemma has_scheme_ci_normalized:
  assumes "u = h @ ''//'' @ t"
    and "h = [] \<or> map (canon True) h = map (canon True) ''http:'' \<or>
      map (canon True) h = map (canon True) ''https:''"
  shows "has_scheme_ci (normalizeProtocol u)"
proof -
  from assms(2) consider (none) "h = []"
    | (http) "map (canon True) h = map (canon True) ''http:''"
    | (https) "map (canon True) h = map (canon True) ''https:''"
    by blast
  then show ?thesis
  proof cases
    case none
    with assms(1) show ?thesis
      by (simp add: normalizeProtocol_def has_scheme_ci_def)
  next
    case http
    then obtain a b c d e where h: "h = [a, b, c, d, e]"
      by (auto simp: map_eq_Cons_conv)
    with http have "canon True a = CHR ''H''"
      by (simp add: canon_literals)
    then have "a \<noteq> CHR ''/''"
      using canon_literals(1) by auto
    with assms(1) h have "normalizeProtocol u = u"
      by (simp add: normalizeProtocol_def)
    with assms(1) h http show ?thesis
      by (simp add: has_scheme_ci_def)
  next
    case https
    then obtain a b c d e f where h: "h = [a, b, c, d, e, f]"
      by (auto simp: map_eq_Cons_conv)
    with https have "canon True a = CHR ''H''"
      by (simp add: canon_literals)
    then have "a \<noteq> CHR ''/''"
      using canon_literals(1) by auto
    with assms(1) h have "normalizeProtocol u = u"
      by (simp add: normalizeProtocol_def)
    with assms(1) h https show ?thesis
      by (simp add: has_scheme_ci_def)
  qed
qed

lemma extracted_has_scheme:
  assumes "u \<in> set (extractAssetsFromFiles files include c)"
  shows "has_scheme_ci u"
proof -
  from extract_members[OF assms] obtain m rawUrl t where
    "m \<in> set (matchAll True urlRegex 0 t)" "m 1 = Some rawUrl" "u = normalizeProtocol rawUrl"
    by blast
  with url_match_capture[of m t] obtain k rest where "accepts True urlBody k rawUrl rest"
    by auto
  from accepts_urlBody[OF this] \<open>u = normalizeProtocol rawUrl\<close> show ?thesis
    using has_scheme_ci_normalized by blast
qed

section \<open>The test of the fetcher\<close>

lemma accepts_Seq_Lit:
  "accepts False (Seq (Lit p) b) i u rest \<longleftrightarrow>
     (\<exists>w. u = p @ w \<and> accepts False b (i + length p) w rest)"
  by auto

lemma accepts_Seq_Bol:
  "accepts ic (Seq Bol b) i u rest \<longleftrightarrow> i = 0 \<and> accepts ic b i u rest"
  by auto

lemma accepts_Seq_Opt:
  "accepts ic (Seq (Opt a) b) i u rest \<longleftrightarrow>
     accepts ic b i u rest \<or> accepts ic (Seq a b) i u rest"
proof
  assume "accepts ic (Seq (Opt a) b) i u rest"
  then show "accepts ic b i u rest \<or> accepts ic (Seq a b) i u rest"
    by auto
next
  assume "accepts ic b i u rest \<or> accepts ic (Seq a b) i u rest"
  then show "accepts ic (Seq (Opt a) b) i u rest"
  proof
    assume "accepts ic b i u rest"
    then have "u = [] @ u \<and> accepts ic (Opt a) i [] (u @ rest) \<and>
        accepts ic b (i + length ([] :: string)) u rest"
      by simp
    then show ?thesis
      unfolding accepts.simps(6) by blast
  next
    assume "accepts ic (Seq a b) i u rest"
    then show ?thesis by auto
  qed
qed

lemma accepts_schemeRegex_eq:
  "accepts False schemeRegex k u s' \<longleftrightarrow> k = 0 \<and> (u = ''http://'' \<or> u = ''https://'')"
  unfolding schemeRegex_def seqs.simps accepts_Seq_Bol accepts_Seq_Lit accepts_Seq_Opt
  by auto

lemma accepts_schemeRegex:
  "(\<exists>u s'. t = u @ s' \<and> accepts False schemeRegex k u s') \<longleftrightarrow>
     k = 0 \<and> (prefix ''http://'' t \<or> prefix ''https://'' t)"
  unfolding accepts_schemeRegex_eq prefix_def by blast

lemma re_test_schemeRegex:
  "re_test False schemeRegex s \<longleftrightarrow> prefix ''http://'' s \<or> prefix ''https://'' s"
  unfolding re_test_iff accepts_schemeRegex by auto

lemma trimStart_keeps:
  "p \<noteq> [] \<Longrightarrow> \<not> is_space (hd p) \<Longrightarrow> trimStart (p @ rest) = p @ rest"
  by (cases p) (simp_all add: trimStart_def)

lemma trimEnd_keeps:
  assumes "p \<noteq> []" and "\<not> is_space (last p)"
  shows "\<exists>t. trimEnd (p @ rest) = p @ t"
proof -
  from assms have "dropWhile is_space (rev p) = rev p"
    by (cases p rule: rev_cases) simp_all
  then have "dropWhile is_space (rev rest @ rev p) =
      (if \<forall>x\<in>set (rev rest). is_space x then rev p else dropWhile is_space (rev rest) @ rev p)"
    by (simp add: dropWhile_append)
  then have "trimEnd (p @ rest) = p @ (if \<forall>x\<in>set (rev rest). is_space x then []
      else rev (dropWhile is_space (rev rest)))"
    by (simp add: trimEnd_def)
  then show ?thesis by blast
qed

lemma trim_keeps:
  assumes "p \<noteq> []" and "\<not> is_space (hd p)" and "\<not> is_space (last p)"
  shows "\<exists>t. trim (p @ rest) = p @ t"
  using trimEnd_keeps[OF assms(1,3), of rest] trimStart_keeps[OF assms(1,2), of rest]
  by (simp add: trim_def)

lemma scheme_ends:
  assumes "map (canon True) p = map (canon True) q" and "q = ''http://'' \<or> q = ''https://''"
  shows "p \<noteq> []" and "\<not> is_space (hd p)" and "\<not> is_space (last p)" and "hd p \<noteq> CHR ''/''"
proof -
  from assms show p: "p \<noteq> []" by auto
  from assms(2) have "hd (map (canon True) q) = CHR ''H''" "last (map (canon True) q) = CHR ''/''"
    by (auto simp: canon_literals)
  with assms(1) p have h: "canon True (hd p) = CHR ''H''" and l: "canon True (last p) = CHR ''/''"
    by (simp_all add: hd_map[symmetric] last_map[symmetric])
  from h show "\<not> is_space (hd p)"
    using canon_space[of "hd p"] canon_literals(4) by auto
  from l show "\<not> is_space (last p)"
    using canon_is_slash[of "last p"] canon_literals(3) by auto
  from h show "hd p \<noteq> CHR ''/''"
    using canon_literals(1) by auto
qed

lemma prefix_same_length:
  "length q = length p \<Longrightarrow> prefix q (p @ x) \<longleftrightarrow> q = p"
  by (auto simp: prefix_def append_eq_append_conv)

lemma prefix_longer:
  assumes "prefix q (p @ x)" and "length p = n" and "n \<le> length q"
  shows "p = take n q"
proof -
  from assms(1) obtain z where "p @ x = q @ z" by (auto simp: prefix_def)
  then have "take n (p @ x) = take n (q @ z)" by simp
  with assms(2,3) show ?thesis by simp
qed

lemma prefix_shorter:
  assumes "prefix q (p @ x)" and "length q = n" and "n \<le> length p"
  shows "q = take n p"
proof -
  from assms(1) obtain z where "p @ x = q @ z" by (auto simp: prefix_def)
  then have "take n (p @ x) = take n (q @ z)" by simp
  with assms(2,3) show ?thesis by simp
qed

lemma lower_scheme_of_prefix:
  assumes "map (canon True) p = map (canon True) q" and "q = ''http://'' \<or> q = ''https://''"
  shows "lower_scheme (p @ x) \<longleftrightarrow> p = ''http://'' \<or> p = ''https://''"
proof
  assume "p = ''http://'' \<or> p = ''https://''"
  then show "lower_scheme (p @ x)" by (auto simp: lower_scheme_def)
next
  assume l: "lower_scheme (p @ x)"
  from assms(2) show "p = ''http://'' \<or> p = ''https://''"
  proof
    assume q: "q = ''http://''"
    with assms(1) have len: "length p = 7"
      using map_eq_imp_length_eq[of "canon True" p "canon True" q] by simp
    from l consider "prefix ''http://'' (p @ x)" | "prefix ''https://'' (p @ x)"
      by (auto simp: lower_scheme_def)
    then show ?thesis
    proof cases
      case 1
      with len show ?thesis by (simp add: prefix_same_length)
    next
      case 2
      from prefix_longer[OF 2 len] have "p = take 7 ''https://''" by simp
      with assms(1) q canon_literals(6) show ?thesis by simp
    qed
  next
    assume q: "q = ''https://''"
    with assms(1) have len: "length p = 8"
      using map_eq_imp_length_eq[of "canon True" p "canon True" q] by simp
    from l consider "prefix ''http://'' (p @ x)" | "prefix ''https://'' (p @ x)"
      by (auto simp: lower_scheme_def)
    then show ?thesis
    proof cases
      case 1
      have "length ''http://'' = 7" by simp
      from prefix_shorter[OF 1 this] len have "''http://'' = take 7 p" by simp
      then have "map (canon True) ''http://'' = take 7 (map (canon True) p)"
        by (simp add: take_map)
      with assms(1) q canon_literals(5) show ?thesis by simp
    next
      case 2
      with len show ?thesis by (simp add: prefix_same_length)
    qed
  qed
qed

lemma guard_iff_lower_scheme:
  assumes "has_scheme_ci u"
  shows "re_test False schemeRegex (fetchUrl u) \<longleftrightarrow> lower_scheme u"
proof -
  from assms have "\<exists>n q. (q = ''http://'' \<or> q = ''https://'') \<and>
      map (canon True) (take n u) = map (canon True) q"
    unfolding has_scheme_ci_def by blast
  then obtain n q where q: "q = ''http://'' \<or> q = ''https://''"
    and m: "map (canon True) (take n u) = map (canon True) q"
    by blast
  define p where "p = take n u"
  define rest where "rest = drop n u"
  have u: "u = p @ rest" by (simp add: p_def rest_def)
  from m have mp: "map (canon True) p = map (canon True) q" by (simp add: p_def)
  note e = scheme_ends[OF mp q]
  from trim_keeps[OF e(1,2,3), of rest] obtain t where t: "trim u = p @ t"
    unfolding u by blast
  from e(1,4) have "\<not> prefix ''//'' (p @ t)"
    by (cases p) auto
  with t have "fetchUrl u = p @ t"
    by (simp add: fetchUrl_def)
  then have "re_test False schemeRegex (fetchUrl u) \<longleftrightarrow> lower_scheme (p @ t)"
    by (simp add: re_test_schemeRegex lower_scheme_def)
  also have "\<dots> \<longleftrightarrow> lower_scheme (p @ rest)"
    by (simp only: lower_scheme_of_prefix[OF mp q])
  finally show ?thesis by (simp add: u)
qed

lemma issueUrls_failed:
  "failed (fst (issueUrls t urls acc)) =
     failed (fst acc) @ refused (\<lambda>u. re_test False schemeRegex (fetchUrl u)) t urls"
proof (induction urls arbitrary: acc)
  case Nil
  show ?case by (simp add: refused_def)
next
  case (Cons rawUrl urls)
  obtain st fs where acc: "acc = (st, fs)" by (cases acc)
  show ?case
    unfolding acc by (simp add: Let_def Cons.IH refused_def)
qed

lemma issueAll_failed:
  "failed (fst (issueAll a)) =
     refused (\<lambda>u. re_test False schemeRegex (fetchUrl u)) Images (a Images) @
     refused (\<lambda>u. re_test False schemeRegex (fetchUrl u)) Css (a Css) @
     refused (\<lambda>u. re_test False schemeRegex (fetchUrl u)) Js (a Js) @
     refused (\<lambda>u. re_test False schemeRegex (fetchUrl u)) Fonts (a Fonts)"
  by (simp add: issueAll_def issueUrls_failed emptyState_def)

lemma refused_cong:
  assumes "\<And>u. u \<in> set urls \<Longrightarrow> g u \<longleftrightarrow> g' u"
  shows "refused g t urls = refused g' t urls"
proof -
  have "filter (\<lambda>u. \<not> g u) urls = filter (\<lambda>u. \<not> g' u) urls"
    by (rule filter_cong) (simp_all add: assms)
  then show ?thesis by (simp add: refused_def)
qed

lemma extracted_refused:
  "refused (\<lambda>u. re_test False schemeRegex (fetchUrl u)) t (extractAssetsFromFiles files include c) =
   refused lower_scheme t (extractAssetsFromFiles files include c)"
  by (rule refused_cong) (simp add: guard_iff_lower_scheme extracted_has_scheme)

lemma scheme_examples:
  "map (extractAssetsFromFiles [slashQueryFile] allIncluded) [Images, Css, Js, Fonts] =
     [[slashQueryUrl], [], [], []]"
  "lower_scheme slashQueryUrl"
  by code_simp+

section \<open>The fetcher on the output of the extractor\<close>

text \<open>
  C9, as amended. Every URL the extractor returns begins with \<open>http://\<close> or \<open>https://\<close>
  when the case of the letters is set apart: its pattern has the flag \<open>i\<close>. The test of
  the fetcher is case-sensitive, so it passes for exactly those of these URLs whose scheme
  is written in lower case, and the entries \<open>Unsupported or local path\<close> of a batch on
  the extractor's output are those of the other URLs.
\<close>

theorem extracted_urls_scheme:
  "(\<forall>u\<in>set (extractAssetsFromFiles files include c).
      has_scheme_ci u \<and> (re_test False schemeRegex (fetchUrl u) \<longleftrightarrow> lower_scheme u)) \<and>
   failed (fst (issueAll (extractAssetsFromFiles files include))) =
     refused lower_scheme Images (extractAssetsFromFiles files include Images) @
     refused lower_scheme Css (extractAssetsFromFiles files include Css) @
     refused lower_scheme Js (extractAssetsFromFiles files include Js) @
     refused lower_scheme Fonts (extractAssetsFromFiles files include Fonts)"
proof (intro conjI ballI)
  fix u
  assume "u \<in> set (extractAssetsFromFiles files include c)"
  then show "has_scheme_ci u"
    by (rule extracted_has_scheme)
  then show "re_test False schemeRegex (fetchUrl u) \<longleftrightarrow> lower_scheme u"
    by (rule guard_iff_lower_scheme)
next
  show "failed (fst (issueAll (extractAssetsFromFiles files include))) =
     refused lower_scheme Images (extractAssetsFromFiles files include Images) @
     refused lower_scheme Css (extractAssetsFromFiles files include Css) @
     refused lower_scheme Js (extractAssetsFromFiles files include Js) @
     refused lower_scheme Fonts (extractAssetsFromFiles files include Fonts)"
    by (simp only: issueAll_failed extracted_refused)
qed

theorem extracted_urls_scheme_witness:
  "slashQueryUrl \<in> set (extractAssetsFromFiles [slashQueryFile] allIncluded Images) \<and>
   has_scheme_ci slashQueryUrl \<and> lower_scheme slashQueryUrl \<and>
   re_test False schemeRegex (fetchUrl slashQueryUrl) \<and>
   failed (fst (issueAll (extractAssetsFromFiles [slashQueryFile] allIncluded))) = []"
proof -
  have m: "slashQueryUrl \<in> set (extractAssetsFromFiles [slashQueryFile] allIncluded Images)"
    using scheme_examples(1) by simp
  from m extracted_urls_scheme[of "[slashQueryFile]" allIncluded Images] scheme_examples
  show ?thesis
    by (simp add: refused_def)
qed

text \<open>
  The claim as it stands: the branch is not reached and every extracted URL begins with
  \<open>http://\<close> or \<open>https://\<close>. A file that writes \<open>HTTP://\<close> gives a URL that does not,
  and the batch refuses it.
\<close>

theorem upper_case_scheme_counterexample:
  "extractAssetsFromFiles [upperSchemeFile] allIncluded Images = [upperSchemeUrl] \<and>
   \<not> prefix ''http://'' upperSchemeUrl \<and> \<not> prefix ''https://'' upperSchemeUrl \<and>
   failed (validateAndFetchAssets envOk (extractAssetsFromFiles [upperSchemeFile] allIncluded)) =
     [\<lparr>failed_url = upperSchemeUrl, failed_type = Images,
       failed_reason = ''Unsupported or local path''\<rparr>]"
  by code_simp

section \<open>What the extractor returns\<close>

lemma processMatch_category:
  "processMatch include assets rawUrl =
     (case category_of include (normalizeProtocol rawUrl) of
        None \<Rightarrow> assets
      | Some c \<Rightarrow> assets(c := set_add (normalizeProtocol rawUrl) (assets c)))"
  by (simp add: processMatch_def category_of_def Let_def)

lemma processMatch_mono: "set (assets c) \<subseteq> set (processMatch include assets rawUrl c)"
  by (auto simp: processMatch_category set_add_def split: option.splits)

lemma processMatch_adds:
  "category_of include (normalizeProtocol rawUrl) = Some c \<Longrightarrow>
     normalizeProtocol rawUrl \<in> set (processMatch include assets rawUrl c)"
  by (simp add: processMatch_category set_add_def)

lemma processMatch_sound:
  "u \<in> set (processMatch include assets rawUrl c) \<Longrightarrow>
     u \<in> set (assets c) \<or> (u = normalizeProtocol rawUrl \<and> category_of include u = Some c)"
  by (auto simp: processMatch_category set_add_def split: option.splits if_splits)

lemma forEachMatch_mono: "set (assets c) \<subseteq> set (forEachMatch include ms assets c)"
proof (induction ms arbitrary: assets)
  case Nil
  show ?case by simp
next
  case (Cons m ms)
  show ?case
  proof (cases "m 1")
    case None
    then show ?thesis by simp
  next
    case (Some rawUrl)
    with processMatch_mono[of assets c "include" rawUrl]
      Cons.IH[of "processMatch include assets rawUrl"]
    show ?thesis by auto
  qed
qed

lemma forEachMatch_adds:
  assumes "\<forall>m\<in>set ms. m 1 \<noteq> None" and "m \<in> set ms" and "m 1 = Some rawUrl"
    and "category_of include (normalizeProtocol rawUrl) = Some c"
  shows "normalizeProtocol rawUrl \<in> set (forEachMatch include ms assets c)"
  using assms(1,2)
proof (induction ms arbitrary: assets)
  case Nil
  then show ?case by simp
next
  case (Cons m' ms)
  from Cons.prems(1) obtain r where r: "m' 1 = Some r" by auto
  then have r1: "m' (Suc 0) = Some r" by simp
  show ?case
  proof (cases "m = m'")
    case True
    with r assms(3) have "r = rawUrl" by simp
    with processMatch_adds[OF assms(4), of assets]
      forEachMatch_mono[of "processMatch include assets rawUrl" c "include" ms]
    show ?thesis by (auto simp: r1)
  next
    case False
    with Cons.prems have "\<forall>m\<in>set ms. m 1 \<noteq> None" "m \<in> set ms" by auto
    from Cons.IH[OF this, of "processMatch include assets r"] show ?thesis
      by (simp add: r1)
  qed
qed

lemma forEachMatch_sound:
  "u \<in> set (forEachMatch include ms assets c) \<Longrightarrow>
     u \<in> set (assets c) \<or>
     (\<exists>m\<in>set ms. \<exists>rawUrl. m 1 = Some rawUrl \<and> u = normalizeProtocol rawUrl \<and>
        category_of include u = Some c)"
proof (induction ms arbitrary: assets)
  case Nil
  then show ?case by simp
next
  case (Cons m ms)
  show ?case
  proof (cases "m 1")
    case None
    with Cons.prems show ?thesis by simp
  next
    case (Some rawUrl)
    with Cons.prems have "u \<in> set (forEachMatch include ms (processMatch include assets rawUrl) c)"
      by simp
    from Cons.IH[OF this] show ?thesis
    proof
      assume "u \<in> set (processMatch include assets rawUrl c)"
      from processMatch_sound[OF this] Some show ?thesis by auto
    next
      assume "\<exists>m\<in>set ms. \<exists>rawUrl. m 1 = Some rawUrl \<and> u = normalizeProtocol rawUrl \<and>
        category_of include u = Some c"
      then show ?thesis by auto
    qed
  qed
qed

lemma extractLoop_mono: "set (assets c) \<subseteq> set (extractLoop fs include assets c)"
proof (induction fs arbitrary: assets)
  case Nil
  show ?case by simp
next
  case (Cons f fs)
  show ?case
  proof (cases "file_text f")
    case None
    with Cons.IH[of assets] show ?thesis by simp
  next
    case (Some t)
    with forEachMatch_mono[of assets c "include" "matchAll True urlRegex 0 t"]
      Cons.IH[of "forEachMatch include (matchAll True urlRegex 0 t) assets"]
    show ?thesis by auto
  qed
qed

lemma url_match_group: "m \<in> set (matchAll True urlRegex 0 t) \<Longrightarrow> m 1 \<noteq> None"
  using url_match_capture[of m t] by auto

lemma extractLoop_adds:
  assumes "f \<in> set fs" and "file_text f = Some t" and "m \<in> set (matchAll True urlRegex 0 t)"
    and "m 1 = Some rawUrl" and "category_of include (normalizeProtocol rawUrl) = Some c"
  shows "normalizeProtocol rawUrl \<in> set (extractLoop fs include assets c)"
  using assms(1)
proof (induction fs arbitrary: assets)
  case Nil
  then show ?case by simp
next
  case (Cons f' fs)
  show ?case
  proof (cases "f = f'")
    case True
    have "\<forall>m\<in>set (matchAll True urlRegex 0 t). m 1 \<noteq> None"
      using url_match_group by blast
    from forEachMatch_adds[OF this assms(3,4,5), of assets]
      extractLoop_mono[of "forEachMatch include (matchAll True urlRegex 0 t) assets" c fs "include"]
      True assms(2)
    show ?thesis by auto
  next
    case False
    with Cons.prems have "f \<in> set fs" by simp
    from Cons.IH[OF this] show ?thesis by simp
  qed
qed

lemma extractLoop_sound:
  "u \<in> set (extractLoop fs include assets c) \<Longrightarrow>
     u \<in> set (assets c) \<or>
     (\<exists>f\<in>set fs. \<exists>t. file_text f = Some t \<and>
        (\<exists>m\<in>set (matchAll True urlRegex 0 t). \<exists>rawUrl. m 1 = Some rawUrl \<and>
           u = normalizeProtocol rawUrl \<and> category_of include u = Some c))"
proof (induction fs arbitrary: assets)
  case Nil
  then show ?case by simp
next
  case (Cons f fs)
  show ?case
  proof (cases "file_text f")
    case None
    with Cons.prems have "u \<in> set (extractLoop fs include assets c)" by simp
    from Cons.IH[OF this] show ?thesis by auto
  next
    case (Some t)
    with Cons.prems have
      "u \<in> set (extractLoop fs include (forEachMatch include (matchAll True urlRegex 0 t) assets) c)"
      by simp
    from Cons.IH[OF this] show ?thesis
    proof
      assume "u \<in> set (forEachMatch include (matchAll True urlRegex 0 t) assets c)"
      from forEachMatch_sound[OF this] Some show ?thesis by auto
    next
      assume "\<exists>f\<in>set fs. \<exists>t. file_text f = Some t \<and>
        (\<exists>m\<in>set (matchAll True urlRegex 0 t). \<exists>rawUrl. m 1 = Some rawUrl \<and>
           u = normalizeProtocol rawUrl \<and> category_of include u = Some c)"
      then show ?thesis by auto
    qed
  qed
qed

lemma extract_exact:
  "u \<in> set (extractAssetsFromFiles files include c) \<longleftrightarrow>
     (\<exists>f\<in>set files. \<exists>t. file_text f = Some t \<and>
        (\<exists>m\<in>set (matchAll True urlRegex 0 t). \<exists>rawUrl. m 1 = Some rawUrl \<and>
           u = normalizeProtocol rawUrl \<and> category_of include u = Some c))"
proof
  assume "u \<in> set (extractAssetsFromFiles files include c)"
  with extractLoop_sound[of u files "include" "\<lambda>_. []" c]
  show "\<exists>f\<in>set files. \<exists>t. file_text f = Some t \<and>
        (\<exists>m\<in>set (matchAll True urlRegex 0 t). \<exists>rawUrl. m 1 = Some rawUrl \<and>
           u = normalizeProtocol rawUrl \<and> category_of include u = Some c)"
    by (simp add: extractAssetsFromFiles_def)
next
  assume "\<exists>f\<in>set files. \<exists>t. file_text f = Some t \<and>
        (\<exists>m\<in>set (matchAll True urlRegex 0 t). \<exists>rawUrl. m 1 = Some rawUrl \<and>
           u = normalizeProtocol rawUrl \<and> category_of include u = Some c)"
  then obtain f t m rawUrl where "f \<in> set files" "file_text f = Some t"
    "m \<in> set (matchAll True urlRegex 0 t)" "m 1 = Some rawUrl"
    and u: "u = normalizeProtocol rawUrl" and "category_of include u = Some c"
    by blast
  then show "u \<in> set (extractAssetsFromFiles files include c)"
    unfolding extractAssetsFromFiles_def u by (intro extractLoop_adds)
qed

lemma scriptTag_matches:
  "map (\<lambda>m. m 1) (matchAll True urlRegex 0 scriptTagText) = [Some ''//x.com/a/j.min.js'']"
  by code_simp

lemma scriptTag_class:
  "category_of allIncluded ''https://x.com/a/j.min.js'' = Some Js"
  "file_text scriptTagFile = Some scriptTagText"
  "extractAssetsFromFiles [scriptTagFile] allIncluded Js = [''https://x.com/a/j.min.js'']"
  by code_simp+

section \<open>Protocol-relative URLs\<close>

text \<open>
  C5. A match that begins with \<open>//\<close> is taken as \<open>https:\<close> followed by the match: the
  step of the loop adds exactly that URL to the set the chain of tests picks for it, and
  changes nothing when the chain picks no set. Every match of the pattern has its first
  group, so no match of a file is skipped: a set the extractor returns holds exactly the
  normalized matches of the texts that the chain sends to it, among them \<open>https:\<close>
  followed by every match that begins with \<open>//\<close>; and no URL of such a set begins with
  \<open>//\<close>. With the images flag set, the text \<open><img src="//cdn.example.com/a/b.png">\<close>
  gives the image set of the one URL \<open>https://cdn.example.com/a/b.png\<close>.
\<close>

theorem protocol_relative_normalized:
  "(prefix ''//'' rawUrl \<longrightarrow>
      processMatch include assets rawUrl =
        (case category_of include (''https:'' @ rawUrl) of
           None \<Rightarrow> assets
         | Some c \<Rightarrow> assets(c := set_add (''https:'' @ rawUrl) (assets c))) \<and>
      (\<forall>c. set (processMatch include assets rawUrl c) \<subseteq> insert (''https:'' @ rawUrl) (set (assets c)))) \<and>
   (m \<in> set (matchAll True urlRegex 0 t) \<longrightarrow> m 1 \<noteq> None) \<and>
   (f \<in> set files \<and> file_text f = Some t \<and> m \<in> set (matchAll True urlRegex 0 t) \<and>
    m 1 = Some rawUrl \<and> prefix ''//'' rawUrl \<and>
    category_of include (''https:'' @ rawUrl) = Some k \<longrightarrow>
      ''https:'' @ rawUrl \<in> set (extractAssetsFromFiles files include k)) \<and>
   (u \<in> set (extractAssetsFromFiles files include c) \<longleftrightarrow>
      (\<exists>f\<in>set files. \<exists>t. file_text f = Some t \<and>
         (\<exists>m\<in>set (matchAll True urlRegex 0 t). \<exists>rawUrl. m 1 = Some rawUrl \<and>
            u = normalizeProtocol rawUrl \<and> category_of include u = Some c))) \<and>
   (\<forall>u\<in>set (extractAssetsFromFiles files include c). \<not> prefix ''//'' u) \<and>
   (include Images \<longrightarrow>
      extractAssetsFromFiles [imgTagFile] include Images = [''https://cdn.example.com/a/b.png''])"
proof (intro conjI impI allI ballI)
  assume "prefix ''//'' rawUrl"
  then have n: "normalizeProtocol rawUrl = ''https:'' @ rawUrl"
    by (simp add: normalizeProtocol_def)
  show "processMatch include assets rawUrl =
        (case category_of include (''https:'' @ rawUrl) of
           None \<Rightarrow> assets
         | Some c \<Rightarrow> assets(c := set_add (''https:'' @ rawUrl) (assets c)))"
    using processMatch_category[of "include" assets rawUrl] unfolding n .
  fix c
  from processMatch_members[of _ "include" assets rawUrl c]
  show "set (processMatch include assets rawUrl c) \<subseteq> insert (''https:'' @ rawUrl) (set (assets c))"
    unfolding n by auto
next
  assume "m \<in> set (matchAll True urlRegex 0 t)"
  then show "m 1 \<noteq> None" by (rule url_match_group)
next
  assume a: "f \<in> set files \<and> file_text f = Some t \<and> m \<in> set (matchAll True urlRegex 0 t) \<and>
    m 1 = Some rawUrl \<and> prefix ''//'' rawUrl \<and>
    category_of include (''https:'' @ rawUrl) = Some k"
  then have n: "normalizeProtocol rawUrl = ''https:'' @ rawUrl"
    by (simp add: normalizeProtocol_def)
  from a have "normalizeProtocol rawUrl \<in> set (extractLoop files include (\<lambda>_. []) k)"
    unfolding n[symmetric] by (intro extractLoop_adds[of f files t m]) simp_all
  then show "''https:'' @ rawUrl \<in> set (extractAssetsFromFiles files include k)"
    unfolding n extractAssetsFromFiles_def .
next
  show "u \<in> set (extractAssetsFromFiles files include c) \<longleftrightarrow>
      (\<exists>f\<in>set files. \<exists>t. file_text f = Some t \<and>
         (\<exists>m\<in>set (matchAll True urlRegex 0 t). \<exists>rawUrl. m 1 = Some rawUrl \<and>
            u = normalizeProtocol rawUrl \<and> category_of include u = Some c))"
    by (rule extract_exact)
next
  fix u
  assume "u \<in> set (extractAssetsFromFiles files include c)"
  from extract_members[OF this] show "\<not> prefix ''//'' u"
    using normalizeProtocol_no_slashes by blast
next
  assume "include Images"
  then show "extractAssetsFromFiles [imgTagFile] include Images = [''https://cdn.example.com/a/b.png'']"
    by (rule imgTag_extract)
qed

theorem protocol_relative_normalized_witness:
  "prefix ''//'' ''//x.com/a/j.min.js'' \<and>
   category_of allIncluded ''https://x.com/a/j.min.js'' = Some Js \<and>
   processMatch allIncluded (\<lambda>_. []) ''//x.com/a/j.min.js'' Js = [''https://x.com/a/j.min.js''] \<and>
   file_text scriptTagFile = Some scriptTagText \<and>
   map (\<lambda>m. m 1) (matchAll True urlRegex 0 scriptTagText) = [Some ''//x.com/a/j.min.js''] \<and>
   ''https://x.com/a/j.min.js'' \<in> set (extractAssetsFromFiles [scriptTagFile] allIncluded Js) \<and>
   \<not> prefix ''//'' ''https://x.com/a/j.min.js'' \<and>
   allIncluded Images \<and>
   extractAssetsFromFiles [imgTagFile] allIncluded Images = [''https://cdn.example.com/a/b.png'']"
proof -
  let ?m = "hd (matchAll True urlRegex 0 scriptTagText)"
  have a: "prefix ''//'' ''//x.com/a/j.min.js''" by simp
  have b: "allIncluded Images" by (simp add: allIncluded_def)
  from scriptTag_matches have m: "?m \<in> set (matchAll True urlRegex 0 scriptTagText)"
    "?m 1 = Some ''//x.com/a/j.min.js''"
    by (auto simp: map_eq_Cons_conv)
  note k = scriptTag_class(1)
  note t = scriptTag_class(2)
  note p = protocol_relative_normalized[of "''//x.com/a/j.min.js''" allIncluded "\<lambda>_. []"
      ?m scriptTagText scriptTagFile "[scriptTagFile]" Js "''https://x.com/a/j.min.js''" Js]
  from p a k have 1: "processMatch allIncluded (\<lambda>_. []) ''//x.com/a/j.min.js'' Js =
      [''https://x.com/a/j.min.js'']"
    by (simp add: set_add_def)
  from p a k t m have 2:
    "''https://x.com/a/j.min.js'' \<in> set (extractAssetsFromFiles [scriptTagFile] allIncluded Js)"
    by simp
  from p 2 have 3: "\<not> prefix ''//'' ''https://x.com/a/j.min.js''"
    by blast
  from p b have 4:
    "extractAssetsFromFiles [imgTagFile] allIncluded Images = [''https://cdn.example.com/a/b.png'']"
    by blast
  from a k 1 t scriptTag_matches 2 3 b 4 show ?thesis
    by (intro conjI)
qed

section \<open>Paths of the archive\<close>

text \<open>
  Adding a folder, with the folders over it, changes no file of the archive: the frame
  of every step is stated for the file a path holds.
\<close>

lemma map_of_map_set: "map_of (map_set k v m) = (map_of m)(k \<mapsto> v)"
  by (induction m) (auto simp: fun_eq_iff)

lemma no_file_iff: "no_file z p \<longleftrightarrow> file_at z p = None"
  by (simp add: no_file_def file_at_def split: option.splits zip_entry.splits)

lemma stored_iff: "map_of z p = Some (Stored d) \<longleftrightarrow> file_at z p = Some d"
  by (simp add: file_at_def split: option.splits zip_entry.splits)

lemma file_at_None: "map_of z p = None \<Longrightarrow> file_at z p = None"
  by (simp add: file_at_def)

lemma file_at_add_folder: "file_at z k = None \<Longrightarrow> file_at (map_set k Folder z) p = file_at z p"
  by (simp add: file_at_def map_of_map_set)

lemma file_at_folderAdd_all: "\<forall>p. file_at (folderAdd name z) p = file_at z p"
proof (induction name z rule: folderAdd.induct)
  case (1 name z)
  let ?n = "forceTrailingSlash name"
  show ?case
  proof (cases "map_of z ?n = None")
    case False
    show ?thesis
      by (subst folderAdd.simps) (simp add: Let_def False)
  next
    case True
    let ?z = "if parentFolder ?n \<noteq> [] then folderAdd (parentFolder ?n) z else z"
    have k: "file_at ?z q = file_at z q" for q
      using "1.IH"[OF refl True refl] by simp
    have f: "folderAdd name z = map_set ?n Folder ?z"
      by (subst folderAdd.simps) (simp add: Let_def True)
    from True have "file_at ?z ?n = None"
      unfolding k by (rule file_at_None)
    from file_at_add_folder[OF this] show ?thesis
      unfolding f k by blast
  qed
qed

lemma file_at_folderAdd: "file_at (folderAdd name z) p = file_at z p"
  by (simp add: file_at_folderAdd_all)

lemma file_at_zip_file:
  "file_at (zip_file root name d z) p = (if p = root @ name then Some d else file_at z p)"
  using file_at_folderAdd[of "parentFolder (root @ name)" z p]
  by (simp add: zip_file_def Let_def file_at_def map_of_map_set)

lemma file_at_zip_folder: "file_at (snd (zip_folder root name z)) p = file_at z p"
  by (simp add: zip_folder_def Let_def file_at_folderAdd)

lemma zip_folder_path:
  "name \<noteq> [] \<Longrightarrow> last name \<noteq> CHR ''/'' \<Longrightarrow>
     fst (zip_folder root name z) = root @ name @ ''/''"
  by (simp add: zip_folder_def Let_def forceTrailingSlash_def)

text \<open>A name with a slash brings the folders over it into the archive.\<close>

lemma zip_folder_parents:
  "zip_folder [] ''a/b-devpack'' [] = (''a/b-devpack/'', [(''a/'', Folder), (''a/b-devpack/'', Folder)])"
  "zip_file ''t/'' ''x/y/f.js'' d [(''t/'', Folder)] =
     [(''t/'', Folder), (''t/x/'', Folder), (''t/x/y/'', Folder), (''t/x/y/f.js'', Stored d)]"
  "zip_folder ''t/'' ''assets'' [(''t/'', Folder), (''t/assets/'', Folder)] =
     (''t/assets/'', [(''t/'', Folder), (''t/assets/'', Folder)])"
  "zip_folder ''t/'' [] [(''t/'', Folder)] = (''t/'', [(''t/'', Folder)])"
  by code_simp+

lemma clean_split: "clean n \<Longrightarrow> split_first_query_or_hash n = n"
  by (auto simp: clean_def split_first_query_or_hash_def takeWhile_eq_all_conv)

lemma placeEach_frame:
  "\<not> prefix folder p \<Longrightarrow> file_at (placeEach want folder es tracker z) p = file_at z p"
proof (induction es arbitrary: tracker z)
  case Nil
  show ?case by simp
next
  case (Cons e es)
  from Cons.prems have "\<And>n. p \<noteq> folder @ n" by auto
  with Cons show ?case
    by (simp add: Let_def file_at_zip_file)
qed

lemma placeEach_other:
  assumes "distinct (map fst es)" and "\<forall>e\<in>set es. clean (fst e)"
    and "set tracker \<inter> fst ` set es = {}"
    and "\<forall>e\<in>set es. want (fst e) \<longrightarrow> fst e \<noteq> n"
  shows "file_at (placeEach want folder es tracker z) (folder @ n) = file_at z (folder @ n)"
  using assms
proof (induction es arbitrary: tracker z)
  case Nil
  show ?case by simp
next
  case (Cons e es)
  show ?case
  proof (cases "want (fst e)")
    case False
    with Cons.prems Cons.IH[of tracker z] show ?thesis by auto
  next
    case True
    from Cons.prems(2) have b: "split_first_query_or_hash (fst e) = fst e"
      by (simp add: clean_split)
    from Cons.prems(3) have f: "fst e \<notin> set tracker" by auto
    then have u: "uniqueLoop tracker (fst e) 1 (fst e) = fst e"
      by (rule uniqueLoop_unused)
    from Cons.prems(1,3) f have d: "set (set_add (fst e) tracker) \<inter> fst ` set es = {}"
      by (auto simp: set_add_def)
    from True Cons.prems(4) have ne: "fst e \<noteq> n" by simp
    from Cons.prems have "distinct (map fst es)" "\<forall>e\<in>set es. clean (fst e)"
      "\<forall>e\<in>set es. want (fst e) \<longrightarrow> fst e \<noteq> n"
      by simp_all
    from Cons.IH[OF this(1,2) d this(3)] True b u ne show ?thesis
      by (simp add: Let_def file_at_zip_file)
  qed
qed

lemma placeEach_own:
  assumes "distinct (map fst es)" and "\<forall>e\<in>set es. clean (fst e)"
    and "set tracker \<inter> fst ` set es = {}"
    and "(n, b) \<in> set es" and "want n"
  shows "file_at (placeEach want folder es tracker z) (folder @ n) = Some (FromBlob b)"
  using assms
proof (induction es arbitrary: tracker z)
  case Nil
  then show ?case by simp
next
  case (Cons e es)
  from Cons.prems(2) have b: "split_first_query_or_hash (fst e) = fst e"
    by (simp add: clean_split)
  from Cons.prems(3) have f: "fst e \<notin> set tracker" by auto
  then have u: "uniqueLoop tracker (fst e) 1 (fst e) = fst e"
    by (rule uniqueLoop_unused)
  from Cons.prems(1,3) f have d: "set (set_add (fst e) tracker) \<inter> fst ` set es = {}"
    by (auto simp: set_add_def)
  from Cons.prems have rest: "distinct (map fst es)" "\<forall>e\<in>set es. clean (fst e)"
    by simp_all
  show ?case
  proof (cases "e = (n, b)")
    case True
    from Cons.prems(1) True have "\<forall>e'\<in>set es. want (fst e') \<longrightarrow> fst e' \<noteq> n"
      by force
    from placeEach_other[where want = want and n = n and folder = folder, OF rest d this]
      True Cons.prems(5) b u show ?thesis
      by (simp add: Let_def file_at_zip_file)
  next
    case False
    with Cons.prems(4) have m: "(n, b) \<in> set es" by simp
    show ?thesis
    proof (cases "want (fst e)")
      case True
      from Cons.IH[OF rest d m Cons.prems(5)] True b u show ?thesis
        by (simp add: Let_def)
    next
      case False
      from Cons.prems(3) have "set tracker \<inter> fst ` set es = {}" by auto
      from Cons.IH[OF rest this m Cons.prems(5)] False show ?thesis
        by simp
    qed
  qed
qed

lemma placeFolder_unfold:
  "name \<noteq> [] \<Longrightarrow> last name \<noteq> CHR ''/'' \<Longrightarrow>
     placeFolder want parent name es z =
       placeEach want (parent @ name @ ''/'') es [] (snd (zip_folder parent name z))"
  using zip_folder_path[of name parent z] by (simp add: placeFolder_def case_prod_beta)

lemma placeFolder_frame:
  "name \<noteq> [] \<Longrightarrow> last name \<noteq> CHR ''/'' \<Longrightarrow> \<not> prefix (parent @ name @ ''/'') p \<Longrightarrow>
     file_at (placeFolder want parent name es z) p = file_at z p"
  by (simp add: placeFolder_unfold placeEach_frame file_at_zip_folder)

lemma placeFolder_at:
  assumes "distinct (map fst es)" and "\<forall>e\<in>set es. clean (fst e)"
    and "(n, b) \<in> set es" and "file_at z (parent @ name @ ''/'' @ n) = None"
    and "name \<noteq> []" and "last name \<noteq> CHR ''/''"
  shows "file_at (placeFolder want parent name es z) (parent @ name @ ''/'' @ n) =
     (if want n then Some (FromBlob b) else None)"
proof -
  let ?z = "snd (zip_folder parent name z)"
  note pf = placeFolder_unfold[OF assms(5,6), of want parent es z]
  have e: "set ([] :: string list) \<inter> fst ` set es = {}" by simp
  show ?thesis
  proof (cases "want n")
    case True
    from placeEach_own[where want = want and n = n and folder = "parent @ name @ ''/''" and z = ?z,
        OF assms(1,2) e assms(3) True] True
    show ?thesis
      by (simp add: pf)
  next
    case False
    with assms(1,3) have "\<forall>e\<in>set es. want (fst e) \<longrightarrow> fst e \<noteq> n"
      by auto
    from placeEach_other[where want = want and n = n and folder = "parent @ name @ ''/''" and z = ?z,
        OF assms(1,2) e this] False assms(4)
    show ?thesis
      by (simp add: pf file_at_zip_folder)
  qed
qed

section \<open>Extensions, and the names a batch returns\<close>

lemma ends_with_ci_drop:
  "ends_with_ci q s \<longleftrightarrow> (\<exists>k\<le>length s. map (canon True) (drop k s) = map (canon True) q)"
  by (simp add: ends_with_ci_def suffix_iff_drop drop_map)

lemma ci_append:
  "map f u = map f (p @ q) \<longleftrightarrow> (\<exists>v w. u = v @ w \<and> map f v = map f p \<and> map f w = map f q)"
proof
  assume "map f u = map f (p @ q)"
  then have "map f u = map f p @ map f q" by simp
  then obtain v w where "u = v @ w" "map f p = map f v" "map f q = map f w"
    unfolding map_eq_append_conv by blast
  then show "\<exists>v w. u = v @ w \<and> map f v = map f p \<and> map f w = map f q"
    by auto
next
  assume "\<exists>v w. u = v @ w \<and> map f v = map f p \<and> map f w = map f q"
  then show "map f u = map f (p @ q)" by auto
qed

lemma accepts_dot_ext:
  "(\<exists>u s'. t = u @ s' \<and> accepts ic (Seq (Lit p) (Seq (Group n a) Eol)) k u s') \<longleftrightarrow>
   (\<exists>v w. t = v @ w \<and> map (canon ic) v = map (canon ic) p \<and> accepts ic a (k + length v) w [])"
  by auto

lemma accepts_gifRegex:
  "(\<exists>u s'. t = u @ s' \<and> accepts True gifRegex k u s') \<longleftrightarrow>
     map (canon True) t = map (canon True) ''.gif''"
  by (auto simp: gifRegex_def)

lemma accepts_videoRegex:
  "(\<exists>u s'. t = u @ s' \<and> accepts True videoRegex k u s') \<longleftrightarrow>
     map (canon True) t = map (canon True) (''.'' @ ''mp4'') \<or>
     map (canon True) t = map (canon True) (''.'' @ ''webm'') \<or>
     map (canon True) t = map (canon True) (''.'' @ ''ogg'')"
  unfolding videoRegex_def seqs.simps alts.simps accepts_dot_ext ci_append
  by (simp only: accepts.simps) blast

lemma accepts_gifOrVideoRegex:
  "(\<exists>u s'. t = u @ s' \<and> accepts True gifOrVideoRegex k u s') \<longleftrightarrow>
     map (canon True) t = map (canon True) (''.'' @ ''gif'') \<or>
     map (canon True) t = map (canon True) (''.'' @ ''mp4'') \<or>
     map (canon True) t = map (canon True) (''.'' @ ''webm'') \<or>
     map (canon True) t = map (canon True) (''.'' @ ''ogg'')"
  unfolding gifOrVideoRegex_def seqs.simps alts.simps accepts_dot_ext ci_append
  by (simp only: accepts.simps) blast

lemma re_test_gifRegex: "re_test True gifRegex s \<longleftrightarrow> ends_with_ci ''.gif'' s"
  unfolding re_test_iff accepts_gifRegex ends_with_ci_drop ..

lemma re_test_videoRegex:
  "re_test True videoRegex s \<longleftrightarrow>
     ends_with_ci ''.mp4'' s \<or> ends_with_ci ''.webm'' s \<or> ends_with_ci ''.ogg'' s"
  unfolding re_test_iff accepts_videoRegex ends_with_ci_drop by (simp only: append.simps) blast

lemma re_test_gifOrVideoRegex:
  "re_test True gifOrVideoRegex s \<longleftrightarrow>
     ends_with_ci ''.gif'' s \<or> ends_with_ci ''.mp4'' s \<or> ends_with_ci ''.webm'' s \<or>
     ends_with_ci ''.ogg'' s"
  unfolding re_test_iff accepts_gifOrVideoRegex ends_with_ci_drop by (simp only: append.simps) blast

lemma suffix_last: "suffix a s \<Longrightarrow> a \<noteq> [] \<Longrightarrow> last s = last a"
  by (auto simp: suffix_def)

lemma extension_lasts:
  "last (map (canon True) ''.gif'') \<noteq> last (map (canon True) ''.mp4'')"
  "last (map (canon True) ''.gif'') \<noteq> last (map (canon True) ''.webm'')"
  "last (map (canon True) ''.gif'') \<noteq> last (map (canon True) ''.ogg'')"
  by code_simp+

lemma gif_not_video:
  assumes "ends_with_ci ''.gif'' s"
  shows "\<not> (ends_with_ci ''.mp4'' s \<or> ends_with_ci ''.webm'' s \<or> ends_with_ci ''.ogg'' s)"
proof -
  from assms have "last (map (canon True) s) = last (map (canon True) ''.gif'')"
    unfolding ends_with_ci_def by (rule suffix_last) simp
  moreover have "ends_with_ci q s \<Longrightarrow> q \<noteq> [] \<Longrightarrow>
      last (map (canon True) s) = last (map (canon True) q)" for q
    unfolding ends_with_ci_def by (rule suffix_last) simp_all
  ultimately show ?thesis
    using extension_lasts by force
qed

lemma imageFolder_cases:
  "\<not> re_test True gifOrVideoRegex fn \<longleftrightarrow> imageFolder fn = ''images''"
  "re_test True videoRegex fn \<longleftrightarrow> imageFolder fn = ''videos''"
  "re_test True gifRegex fn \<longleftrightarrow> imageFolder fn = ''gifs''"
  using gif_not_video[of fn]
  by (auto simp: re_test_gifOrVideoRegex re_test_videoRegex re_test_gifRegex imageFolder_def)

lemma digit_char_code: "d < 10 \<Longrightarrow> (of_char (digit_char d) :: nat) = 48 + d"
  by (simp add: digit_char_def)

lemma clean_digit: "d < 10 \<Longrightarrow> digit_char d \<noteq> CHR ''?'' \<and> digit_char d \<noteq> CHR ''#''"
  using digit_char_code[of d] by auto

lemma clean_string_of_nat: "clean (string_of_nat n)"
proof (induction n rule: string_of_nat.induct)
  case (1 n)
  show ?case
  proof (cases "n < 10")
    case True
    with clean_digit[of n] show ?thesis
      by (subst string_of_nat.simps) (auto simp: clean_def)
  next
    case False
    have "n mod 10 < 10" by simp
    from clean_digit[OF this] False 1 show ?thesis
      by (subst string_of_nat.simps) (auto simp: clean_def)
  qed
qed

lemma clean_duplicate_name: "clean base \<Longrightarrow> clean (duplicate_name i base)"
  using clean_string_of_nat[of i] by (simp add: clean_def duplicate_name_def)

lemma clean_uniqueLoop:
  "clean base \<Longrightarrow> clean name \<Longrightarrow> clean (uniqueLoop tracker base i name)"
proof (induction tracker base i name rule: uniqueLoop.induct)
  case (1 tracker base i name)
  show ?case
  proof (cases "name \<in> set tracker")
    case True
    with 1 show ?thesis
      by (subst uniqueLoop.simps) (simp add: clean_duplicate_name)
  next
    case False
    with 1 show ?thesis by (simp add: uniqueLoop_unused)
  qed
qed

lemma clean_baseOfUrl: "clean (baseOfUrl url)"
  by (auto simp: clean_def baseOfUrl_def split_first_def dest!: set_takeWhileD)

lemma set_map_set: "set (map_set k v m) \<subseteq> insert (k, v) (set m)"
  by (induction m) auto

lemma settle_clean:
  assumes "\<forall>t. \<forall>e\<in>set (valid st t). clean (fst e)"
  shows "\<forall>t. \<forall>e\<in>set (valid (settle st pr) t). clean (fst e)"
proof (cases "failure_reason (snd pr)")
  case (Some m)
  then have "settle st pr = reject (fst pr) m st"
    using settle_failure[of "snd pr" m st "fst pr"] by simp
  with assms show ?thesis by simp
next
  case None
  then obtain status blob where res: "snd pr = Response status (Inr blob)" "ok status"
    by (auto simp: failure_reason_def split: response.splits sum.splits if_splits)
  obtain name tracker' where
    g: "generateUniqueName (snd (fst pr)) (assetNameTracker st) = (name, tracker')"
    by (cases "generateUniqueName (snd (fst pr)) (assetNameTracker st)")
  from generateUniqueName_fresh(3)[OF g] have c: "clean name"
    by (simp add: clean_uniqueLoop clean_baseOfUrl)
  from res g have v: "valid (settle st pr) =
      (valid st)(fst (fst pr) := map_set name blob (valid st (fst (fst pr))))"
    by (cases pr) (simp add: settle_def)
  show ?thesis
  proof (intro allI ballI)
    fix t e
    assume "e \<in> set (valid (settle st pr) t)"
    with v set_map_set[of name blob "valid st (fst (fst pr))"]
    have "e = (name, blob) \<or> e \<in> set (valid st t)"
      by (auto split: if_splits)
    with c assms show "clean (fst e)" by auto
  qed
qed

lemma foldl_settle_clean:
  "\<forall>t. \<forall>e\<in>set (valid st t). clean (fst e) \<Longrightarrow>
     \<forall>t. \<forall>e\<in>set (valid (foldl settle st prs) t). clean (fst e)"
proof (induction prs arbitrary: st)
  case Nil
  then show ?case by simp
next
  case (Cons pr prs)
  from Cons.IH[OF settle_clean[OF Cons.prems]] show ?case by simp
qed

lemma fetched_clean:
  "e \<in> set (valid (validateAndFetchAssets env assets) t) \<Longrightarrow> clean (fst e)"
  using foldl_settle_clean[of "fst (issueAll assets)" "env (snd (issueAll assets))"]
  by (simp add: valid_validateAndFetchAssets issueAll_keeps)

lemma fetched_distinct:
  "distinct (map fst (valid (validateAndFetchAssets env assets) Images))"
proof -
  let ?st = "fst (issueAll assets)"
  have "distinct (fetchedNames (valid ?st))"
    "set (fetchedNames (valid ?st)) \<subseteq> set (assetNameTracker ?st)"
    by (simp_all add: issueAll_keeps fetchedNames_def)
  from foldl_settle_names[OF this, of "env (snd (issueAll assets))"]
  show ?thesis
    by (simp add: valid_validateAndFetchAssets fetchedNames_def)
qed

lemma localNameLoop_result:
  assumes "localNameLoop tracker fileKey fname i baseName = Some r"
  shows "r = baseName"
  using localNameLoop_fresh[OF localNameLoop_Some[OF assms], of fname i baseName] assms
  by simp


lemma addLocalFiles_no_file:
  "addLocalFiles root fs tracker z = Some z' \<Longrightarrow> file_at z p = None \<Longrightarrow>
     \<forall>f\<in>set fs. p \<noteq> root @ file_name f \<Longrightarrow> file_at z' p = None"
proof (induction fs arbitrary: tracker z)
  case Nil
  then show ?case by simp
next
  case (Cons f fs)
  from Cons.prems(1) obtain baseName where
    l: "localNameLoop tracker (fileKey_of f) (file_name f) 1 (file_name f) = Some baseName"
    and a: "addLocalFiles root fs (set_add (fileKey_of f) tracker)
        (zip_file root baseName (FromFile f) z) = Some z'"
    by (auto split: option.splits)
  from localNameLoop_result[OF l] have b: "baseName = file_name f" .
  from Cons.prems(2,3) have "file_at (zip_file root baseName (FromFile f) z) p = None"
    unfolding b by (simp add: file_at_zip_file)
  from Cons.IH[OF a this] Cons.prems(3) show ?case by simp
qed

text \<open>The loop over the local files ends when the identity keys of the files are distinct.\<close>

lemma addLocalFiles_returns:
  "distinct (map fileKey_of fs) \<Longrightarrow> set tracker \<inter> fileKey_of ` set fs = {} \<Longrightarrow>
     \<exists>z'. addLocalFiles root fs tracker z = Some z'"
proof (induction fs arbitrary: tracker z)
  case Nil
  show ?case by simp
next
  case (Cons f fs)
  from Cons.prems(2) have "fileKey_of f \<notin> set tracker" by auto
  then have l: "localNameLoop tracker (fileKey_of f) (file_name f) 1 (file_name f) =
      Some (file_name f)"
    by (rule localNameLoop_fresh)
  from Cons.prems have "distinct (map fileKey_of fs)"
    "set (set_add (fileKey_of f) tracker) \<inter> fileKey_of ` set fs = {}"
    by (auto simp: set_add_def)
  from Cons.IH[OF this] l show ?case by simp
qed

text \<open>A key met a second time stops the listener for good.\<close>

lemma addLocalFiles_tracked:
  "set tracker \<inter> fileKey_of ` set fs \<noteq> {} \<Longrightarrow> addLocalFiles root fs tracker z = None"
proof (induction fs arbitrary: tracker z)
  case Nil
  then show ?case by simp
next
  case (Cons f fs)
  show ?case
  proof (cases "fileKey_of f \<in> set tracker")
    case True
    then show ?thesis by (simp add: localNameLoop_stuck)
  next
    case False
    then have l: "localNameLoop tracker (fileKey_of f) (file_name f) 1 (file_name f) =
        Some (file_name f)"
      by (rule localNameLoop_fresh)
    from False Cons.prems have "set (set_add (fileKey_of f) tracker) \<inter> fileKey_of ` set fs \<noteq> {}"
      by (auto simp: set_add_def)
    from Cons.IH[OF this] l show ?thesis by simp
  qed
qed

lemma addLocalFiles_stuck:
  "\<not> distinct (map fileKey_of fs) \<Longrightarrow> addLocalFiles root fs tracker z = None"
proof (induction fs arbitrary: tracker z)
  case Nil
  then show ?case by simp
next
  case (Cons f fs)
  show ?case
  proof (cases "fileKey_of f \<in> set tracker")
    case True
    then show ?thesis by (simp add: localNameLoop_stuck)
  next
    case False
    then have l: "localNameLoop tracker (fileKey_of f) (file_name f) 1 (file_name f) =
        Some (file_name f)"
      by (rule localNameLoop_fresh)
    show ?thesis
    proof (cases "distinct (map fileKey_of fs)")
      case False
      from Cons.IH[OF this] l show ?thesis by simp
    next
      case True
      with Cons.prems have "fileKey_of f \<in> fileKey_of ` set fs" by simp
      then have "set (set_add (fileKey_of f) tracker) \<inter> fileKey_of ` set fs \<noteq> {}"
        by (auto simp: set_add_def)
      then have "addLocalFiles root fs (set_add (fileKey_of f) tracker) z' = None" for z'
        by (rule addLocalFiles_tracked)
      with l show ?thesis by simp
    qed
  qed
qed

section \<open>The folders of \<open>assets\<close>, step by step\<close>

lemma hasVideo_member: "(fn, b) \<in> set (zc Images) \<Longrightarrow> re_test True videoRegex fn \<Longrightarrow> hasVideo zc"
  by (auto simp: hasVideo_def list_ex_iff intro!: bexI[of _ "(fn, b)"])

lemma hasGif_member: "(fn, b) \<in> set (zc Images) \<Longrightarrow> re_test True gifRegex fn \<Longrightarrow> hasGif zc"
  by (auto simp: hasGif_def list_ex_iff intro!: bexI[of _ "(fn, b)"])

text \<open>The three steps that read \<open>valid.images\<close>, each at the path of its own folder.\<close>

lemma images_step:
  assumes "distinct (map fst (zc Images))" and "\<forall>e\<in>set (zc Images). clean (fst e)"
    and "(fn, blob) \<in> set (zc Images)" and "file_at z (assets @ ''images/'' @ fn) = None"
  shows "file_at (placeFolder (\<lambda>filename. \<not> re_test True gifOrVideoRegex filename)
                assets ''images'' (zc Images) z) (assets @ ''images/'' @ fn) =
     (if imageFolder fn = ''images'' then Some (FromBlob blob) else None)"
  using placeFolder_at[where want = "\<lambda>filename. \<not> re_test True gifOrVideoRegex filename"
      and parent = assets and name = "''images''" and z = z, OF assms(1,2,3)] assms(4)
  by (simp add: imageFolder_cases(1))

lemma videos_step:
  assumes "distinct (map fst (zc Images))" and "\<forall>e\<in>set (zc Images). clean (fst e)"
    and "(fn, blob) \<in> set (zc Images)" and "file_at z (assets @ ''videos/'' @ fn) = None"
  shows "file_at (if hasVideo zc
               then placeFolder (re_test True videoRegex) assets ''videos'' (zc Images) z
               else z) (assets @ ''videos/'' @ fn) =
     (if imageFolder fn = ''videos'' then Some (FromBlob blob) else None)"
  using placeFolder_at[where want = "re_test True videoRegex"
      and parent = assets and name = "''videos''" and z = z, OF assms(1,2,3)] assms(4)
    hasVideo_member[where zc = zc, OF assms(3)]
  by (auto simp: imageFolder_cases(2))

lemma gifs_step:
  assumes "distinct (map fst (zc Images))" and "\<forall>e\<in>set (zc Images). clean (fst e)"
    and "(fn, blob) \<in> set (zc Images)" and "file_at z (assets @ ''gifs/'' @ fn) = None"
  shows "file_at (if hasGif zc
               then placeFolder (re_test True gifRegex) assets ''gifs'' (zc Images) z
               else z) (assets @ ''gifs/'' @ fn) =
     (if imageFolder fn = ''gifs'' then Some (FromBlob blob) else None)"
  using placeFolder_at[where want = "re_test True gifRegex"
      and parent = assets and name = "''gifs''" and z = z, OF assms(1,2,3)] assms(4)
    hasGif_member[where zc = zc, OF assms(3)]
  by (auto simp: imageFolder_cases(3))

lemma assets_placed:
  assumes d: "distinct (map fst (zc Images))" and c: "\<forall>e\<in>set (zc Images). clean (fst e)"
    and m: "(fn, blob) \<in> set (zc Images)"
    and n: "file_at z1 (root @ ''assets/images/'' @ fn) = None"
      "file_at z1 (root @ ''assets/videos/'' @ fn) = None"
      "file_at z1 (root @ ''assets/gifs/'' @ fn) = None"
  defines "zf \<equiv> addScriptAndStyle root zc (addAssetsFolder root zc z1)"
  shows "file_at zf (root @ ''assets/images/'' @ fn) =
      (if imageFolder fn = ''images'' then Some (FromBlob blob) else None)"
    and "file_at zf (root @ ''assets/videos/'' @ fn) =
      (if imageFolder fn = ''videos'' then Some (FromBlob blob) else None)"
    and "file_at zf (root @ ''assets/gifs/'' @ fn) =
      (if imageFolder fn = ''gifs'' then Some (FromBlob blob) else None)"
proof -
  let ?A = "root @ ''assets/''"
  let ?z0 = "snd (zip_folder root ''assets'' z1)"
  let ?za = "placeFolder (\<lambda>filename. \<not> re_test True gifOrVideoRegex filename)
      ?A ''images'' (zc Images) ?z0"
  let ?zb = "if hasAssets zc Fonts then placeFolder (\<lambda>_. True) ?A ''fonts'' (zc Fonts) ?za else ?za"
  let ?zc = "if hasVideo zc then placeFolder (re_test True videoRegex) ?A ''videos'' (zc Images) ?zb
      else ?zb"
  let ?zd = "if hasGif zc then placeFolder (re_test True gifRegex) ?A ''gifs'' (zc Images) ?zc
      else ?zc"
  from m have h: "hasAssets zc Images" by (auto simp: hasAssets_def)
  have A: "fst (zip_folder root ''assets'' z1) = ?A"
    by (simp add: zip_folder_path)
  from h A have aa: "addAssetsFolder root zc z1 = ?zd"
    by (simp add: addAssetsFolder_def case_prod_beta Let_def)
  have zf: "zf = (let z1 = (if hasAssets zc Js then placeFolder (\<lambda>_. True) root ''script'' (zc Js) ?zd
        else ?zd)
      in if hasAssets zc Css then placeFolder (\<lambda>_. True) root ''style'' (zc Css) z1 else z1)"
    unfolding zf_def addScriptAndStyle_def aa by (simp add: Let_def)
  have later: "file_at zf (?A @ p) = file_at ?zd (?A @ p)" for p
    unfolding zf by (simp add: Let_def placeFolder_frame)
  from n have n0: "file_at ?z0 (?A @ ''images/'' @ fn) = None"
    "file_at ?z0 (?A @ ''videos/'' @ fn) = None"
    "file_at ?z0 (?A @ ''gifs/'' @ fn) = None"
    by (simp_all add: file_at_zip_folder)
  note i = images_step[where zc = zc and z = ?z0 and assets = ?A, OF d c m n0(1)]
  have "file_at ?zd (?A @ ''images/'' @ fn) = file_at ?za (?A @ ''images/'' @ fn)"
    by (simp add: placeFolder_frame)
  with i later[of "''images/'' @ fn"]
  show "file_at zf (root @ ''assets/images/'' @ fn) =
      (if imageFolder fn = ''images'' then Some (FromBlob blob) else None)"
    by simp
  have nb: "file_at ?zb (?A @ ''videos/'' @ fn) = None" "file_at ?zb (?A @ ''gifs/'' @ fn) = None"
    using n0 by (simp_all add: placeFolder_frame)
  note v = videos_step[where zc = zc and z = ?zb and assets = ?A, OF d c m nb(1)]
  have "file_at ?zd (?A @ ''videos/'' @ fn) = file_at ?zc (?A @ ''videos/'' @ fn)"
    by (simp add: placeFolder_frame)
  with v later[of "''videos/'' @ fn"]
  show "file_at zf (root @ ''assets/videos/'' @ fn) =
      (if imageFolder fn = ''videos'' then Some (FromBlob blob) else None)"
    by simp
  have nc: "file_at ?zc (?A @ ''gifs/'' @ fn) = None"
    using nb(2) by (simp add: placeFolder_frame)
  note g = gifs_step[where zc = zc and z = ?zc and assets = ?A, OF d c m nc]
  with later[of "''gifs/'' @ fn"]
  show "file_at zf (root @ ''assets/gifs/'' @ fn) =
      (if imageFolder fn = ''gifs'' then Some (FromBlob blob) else None)"
    by simp
qed

lemma folderName_root:
  "zip_folder [] (folderName st) [] = (folderName st @ ''/'', folderAdd (folderName st) [])"
  by (simp add: zip_folder_def folderName_def forceTrailingSlash_def Let_def)

text \<open>
  The listener returns the archive when the identity keys of the local files are
  distinct and a scan has set \<open>zipContent\<close>, and does not return when a key repeats.
\<close>

lemma generateZip_returns:
  assumes "distinct (map fileKey_of (collectedFiles st))" and "zipContent st = Some zc"
  shows "\<exists>z1. addLocalFiles (folderName st @ ''/'') (collectedFiles st) []
        (folderAdd (folderName st) []) = Some z1 \<and>
      generateZip st =
        Some (Inr (addScriptAndStyle (folderName st @ ''/'') zc
                     (addAssetsFolder (folderName st @ ''/'') zc z1)))"
proof -
  from addLocalFiles_returns[OF assms(1), of "[]" "folderName st @ ''/''" "folderAdd (folderName st) []"]
  obtain z1 where "addLocalFiles (folderName st @ ''/'') (collectedFiles st) []
        (folderAdd (folderName st) []) = Some z1"
    by auto
  with assms(2) show ?thesis
    by (simp add: generateZip_def folderName_root)
qed

lemma generateZip_stuck:
  "\<not> distinct (map fileKey_of (collectedFiles st)) \<Longrightarrow> generateZip st = None"
  by (simp add: generateZip_def folderName_root addLocalFiles_stuck)

lemma local_names_elsewhere:
  assumes "\<forall>f\<in>set fs. CHR ''/'' \<notin> set (file_name f)"
  shows "\<forall>f\<in>set fs. root @ ''assets/'' @ d @ ''/'' @ fn \<noteq> root @ file_name f"
proof (intro ballI notI)
  fix f assume f: "f \<in> set fs" and eq: "root @ ''assets/'' @ d @ ''/'' @ fn = root @ file_name f"
  from eq have e: "''assets/'' @ d @ ''/'' @ fn = file_name f"
    by (simp only: same_append_eq)
  have "CHR ''/'' \<in> set (''assets/'' @ d @ ''/'' @ fn)" by simp
  then have "CHR ''/'' \<in> set (file_name f)"
    unfolding e .
  with assms f show False by blast
qed

lemma imageFolder_range:
  "imageFolder fn = ''images'' \<or> imageFolder fn = ''videos'' \<or> imageFolder fn = ''gifs''"
  by (simp add: imageFolder_def)

text \<open>The files a page keeps have distinct identity keys.\<close>

lemma newUnique_keys:
  assumes "distinct (map fileKey_of acc)" and "fileKey_of ` set acc \<subseteq> set uploaded"
    and "set U \<subseteq> set uploaded" and "fileKey_of ` set acc \<inter> set U = {}"
  shows "distinct (map fileKey_of (fst (newUnique fs uploaded acc))) \<and>
     fileKey_of ` set (fst (newUnique fs uploaded acc)) \<subseteq> set (snd (newUnique fs uploaded acc)) \<and>
     set U \<subseteq> set (snd (newUnique fs uploaded acc)) \<and>
     fileKey_of ` set (fst (newUnique fs uploaded acc)) \<inter> set U = {}"
  using assms
proof (induction fs arbitrary: uploaded acc)
  case Nil
  then show ?case by simp
next
  case (Cons f fs)
  show ?case
  proof (cases "fileKey_of f \<notin> set uploaded")
    case False
    with Cons.IH[OF Cons.prems] show ?thesis by simp
  next
    case True
    with Cons.prems have "distinct (map fileKey_of (acc @ [f]))"
      "fileKey_of ` set (acc @ [f]) \<subseteq> set (set_add (fileKey_of f) uploaded)"
      "set U \<subseteq> set (set_add (fileKey_of f) uploaded)"
      "fileKey_of ` set (acc @ [f]) \<inter> set U = {}"
      by (auto simp: set_add_def)
    from Cons.IH[OF this] True show ?thesis by simp
  qed
qed

lemma keys_tracked_initialState: "keys_tracked initialState"
  by (simp add: keys_tracked_def initialState_def)

lemma keys_tracked_updatePreview:
  assumes "keys_tracked st"
  shows "keys_tracked (updatePreview newFiles st)"
proof -
  let ?r = "newUnique newFiles (uploadedFileSet st) []"
  have n: "distinct (map fileKey_of (fst ?r)) \<and>
     fileKey_of ` set (fst ?r) \<subseteq> set (snd ?r) \<and>
     set (uploadedFileSet st) \<subseteq> set (snd ?r) \<and>
     fileKey_of ` set (fst ?r) \<inter> set (uploadedFileSet st) = {}"
    by (rule newUnique_keys) simp_all
  have u: "collectedFiles (updatePreview newFiles st) = collectedFiles st @ fst ?r"
    "uploadedFileSet (updatePreview newFiles st) = snd ?r"
    by (simp_all add: updatePreview_def case_prod_beta)
  from assms n have "fileKey_of ` set (collectedFiles st) \<inter> fileKey_of ` set (fst ?r) = {}"
    unfolding keys_tracked_def by (simp only: set_map) blast
  with assms n show ?thesis
    unfolding keys_tracked_def u by auto
qed

lemma keys_tracked_onDrop: "keys_tracked st \<Longrightarrow> keys_tracked (onDrop files st)"
  by (simp add: onDrop_def Let_def keys_tracked_updatePreview)

lemma keys_tracked_distinct: "keys_tracked st \<Longrightarrow> distinct (map fileKey_of (collectedFiles st))"
  by (simp add: keys_tracked_def)

lemma threeKinds_example:
  "map (valid (validateAndFetchAssets envOk threeKinds)) [Images, Fonts, Css, Js] =
     [[(''photo.png'', ''data''), (''clip.MP4'', ''data''), (''anim.gif'', ''data'')], [], [], []]"
  "folderName threeKindsState = ''t-devpack''"
  "collectedFiles threeKindsState = [small_a, style_b]"
  "imageFolder ''clip.MP4'' = ''videos''"
  "CHR ''/'' \<notin> set (file_name small_a) \<and> CHR ''/'' \<notin> set (file_name style_b)"
  "addScriptAndStyle ''t-devpack/'' (valid (validateAndFetchAssets envOk threeKinds))
     (addAssetsFolder ''t-devpack/'' (valid (validateAndFetchAssets envOk threeKinds))
       [(''t-devpack/'', Folder), (''t-devpack/a.js'', Stored (FromFile small_a)),
        (''t-devpack/b.css'', Stored (FromFile style_b))]) =
   threeKindsZip"
  "fileKey_of small_a \<noteq> fileKey_of style_b"
  by code_simp+

lemma threeKinds_local:
  "zip_folder [] (folderName threeKindsState) [] = (''t-devpack/'', [(''t-devpack/'', Folder)])"
  "zip_file ''t-devpack/'' (file_name small_a) (FromFile small_a) [(''t-devpack/'', Folder)] =
     [(''t-devpack/'', Folder), (''t-devpack/a.js'', Stored (FromFile small_a))]"
  "zip_file ''t-devpack/'' (file_name style_b) (FromFile style_b)
     [(''t-devpack/'', Folder), (''t-devpack/a.js'', Stored (FromFile small_a))] =
     [(''t-devpack/'', Folder), (''t-devpack/a.js'', Stored (FromFile small_a)),
      (''t-devpack/b.css'', Stored (FromFile style_b))]"
  by code_simp+

lemma threeKinds_zip: "generateZip threeKindsState = Some (Inr threeKindsZip)"
proof -
  have z: "zipContent threeKindsState = Some (valid (validateAndFetchAssets envOk threeKinds))"
    by (simp add: threeKindsState_def)
  have a: "addLocalFiles ''t-devpack/'' (collectedFiles threeKindsState) [] [(''t-devpack/'', Folder)] =
      Some [(''t-devpack/'', Folder), (''t-devpack/a.js'', Stored (FromFile small_a)),
            (''t-devpack/b.css'', Stored (FromFile style_b))]"
    by (simp add: localNameLoop_fresh threeKinds_example(3) threeKinds_example(7)[THEN not_sym]
          threeKinds_local(2,3) set_add_def)
  show ?thesis
    unfolding generateZip_def threeKinds_local(1)
    by (simp add: a z threeKinds_example(6))
qed

section \<open>Folders of the fetched images\<close>

text \<open>
  C8. Let the archive be built from the maps a fetch batch returned and from local files
  whose names hold no slash and whose identity keys are distinct, as \<open>updatePreview\<close>
  keeps them. Then the listener returns an archive. An entry of \<open>valid.images\<close> carries
  a name without query and fragment, so its stripped name is its name, and the three
  tests of the listener sort it by the extension alone: \<open>.mp4\<close>, \<open>.webm\<close> and \<open>.ogg\<close> to
  \<open>videos\<close>, \<open>.gif\<close> to \<open>gifs\<close>, every other name to \<open>images\<close>, the case of the letters
  apart. The archive holds the payload of the entry under its name in that folder of
  \<open>assets\<close>, and holds no file under its name in the other two. The build reads \<open>valid\<close>
  and does not change it.
\<close>

theorem image_entry_in_one_folder:
  assumes "zipContent st = Some (valid (validateAndFetchAssets env assets))"
    and "\<forall>f\<in>set (collectedFiles st). CHR ''/'' \<notin> set (file_name f)"
    and "distinct (map fileKey_of (collectedFiles st))"
    and "(fn, blob) \<in> set (valid (validateAndFetchAssets env assets) Images)"
  shows "\<exists>z. generateZip st = Some (Inr z) \<and>
    split_first_query_or_hash fn = fn \<and>
    (re_test True videoRegex fn \<longleftrightarrow> imageFolder fn = ''videos'') \<and>
    (re_test True gifRegex fn \<longleftrightarrow> imageFolder fn = ''gifs'') \<and>
    (\<not> re_test True gifOrVideoRegex fn \<longleftrightarrow> imageFolder fn = ''images'') \<and>
    map_of z (folderName st @ ''/assets/'' @ imageFolder fn @ ''/'' @ fn) =
      Some (Stored (FromBlob blob)) \<and>
    (\<forall>d\<in>{''images'', ''videos'', ''gifs''}. d \<noteq> imageFolder fn \<longrightarrow>
       no_file z (folderName st @ ''/assets/'' @ d @ ''/'' @ fn))"
proof -
  let ?zc = "valid (validateAndFetchAssets env assets)"
  let ?root = "folderName st @ ''/''"
  from generateZip_returns[OF assms(3,1)] obtain z1 where
    l: "addLocalFiles ?root (collectedFiles st) [] (folderAdd (folderName st) []) = Some z1"
    and z: "generateZip st = Some (Inr (addScriptAndStyle ?root ?zc (addAssetsFolder ?root ?zc z1)))"
    by blast
  let ?z = "addScriptAndStyle ?root ?zc (addAssetsFolder ?root ?zc z1)"
  have e: "file_at (folderAdd (folderName st) []) q = None" for q
    unfolding file_at_folderAdd by (simp add: file_at_def)
  have n: "file_at z1 (?root @ ''assets/'' @ d @ ''/'' @ fn) = None" for d
    by (rule addLocalFiles_no_file[OF l e local_names_elsewhere[OF assms(2)]])
  have c: "\<forall>e\<in>set (?zc Images). clean (fst e)"
    using fetched_clean by blast
  with assms(4) have s: "split_first_query_or_hash fn = fn"
    by (auto simp: clean_split)
  from n[of "''images''"] n[of "''videos''"] n[of "''gifs''"]
  have nn: "file_at z1 (?root @ ''assets/images/'' @ fn) = None"
    "file_at z1 (?root @ ''assets/videos/'' @ fn) = None"
    "file_at z1 (?root @ ''assets/gifs/'' @ fn) = None"
    by simp_all
  note p = assets_placed[where zc = ?zc and root = ?root and ?z1.0 = z1 and fn = fn and blob = blob,
      OF fetched_distinct c assms(4) nn]
  from p imageFolder_range[of fn] have
    "map_of ?z (folderName st @ ''/assets/'' @ imageFolder fn @ ''/'' @ fn) =
      Some (Stored (FromBlob blob)) \<and>
    (\<forall>d\<in>{''images'', ''videos'', ''gifs''}. d \<noteq> imageFolder fn \<longrightarrow>
       no_file ?z (folderName st @ ''/assets/'' @ d @ ''/'' @ fn))"
    by (auto simp: stored_iff no_file_iff)
  with z s imageFolder_cases[of fn] show ?thesis
    by auto
qed

theorem image_entry_in_one_folder_witness:
  "zipContent threeKindsState = Some (valid (validateAndFetchAssets envOk threeKinds)) \<and>
   collectedFiles threeKindsState = [small_a, style_b] \<and>
   CHR ''/'' \<notin> set (file_name small_a) \<and> CHR ''/'' \<notin> set (file_name style_b) \<and>
   fileKey_of small_a \<noteq> fileKey_of style_b \<and>
   generateZip threeKindsState = Some (Inr threeKindsZip) \<and>
   (''clip.MP4'', ''data'') \<in> set (valid (validateAndFetchAssets envOk threeKinds) Images) \<and>
   imageFolder ''clip.MP4'' = ''videos'' \<and>
   map_of threeKindsZip ''t-devpack/assets/videos/clip.MP4'' = Some (Stored (FromBlob ''data'')) \<and>
   no_file threeKindsZip ''t-devpack/assets/images/clip.MP4'' \<and>
   no_file threeKindsZip ''t-devpack/assets/gifs/clip.MP4''"
proof -
  have a: "zipContent threeKindsState = Some (valid (validateAndFetchAssets envOk threeKinds))"
    by (simp add: threeKindsState_def)
  have b: "\<forall>f\<in>set (collectedFiles threeKindsState). CHR ''/'' \<notin> set (file_name f)"
    by (simp add: threeKinds_example)
  have k: "distinct (map fileKey_of (collectedFiles threeKindsState))"
    by (simp add: threeKinds_example)
  have m: "(''clip.MP4'', ''data'') \<in> set (valid (validateAndFetchAssets envOk threeKinds) Images)"
    using threeKinds_example(1) by simp
  from image_entry_in_one_folder[OF a b k m] a m show ?thesis
    by (simp add: threeKinds_zip threeKinds_example)
qed

end
